theory Spec2Isabelle
  imports Main "HOL-Library.Word"
begin

section \<open>Strings, bytes and exceptions\<close>

text \<open>
  A Python \<open>str\<close> is a sequence of Unicode code points and a \<open>bytes\<close> object a
  sequence of octets. Code points are natural numbers; a value of \<open>0x110000\<close> or
  more is not a code point of any Python string.
\<close>

type_synonym str = "nat list"
type_synonym byte = "8 word"
type_synonym bytes = "byte list"

text \<open>An ASCII literal of the source, as a \<open>str\<close> and as \<open>bytes\<close>.\<close>

definition str_of :: "string \<Rightarrow> str" where
  "str_of s = map of_char s"

definition bytes_of :: "string \<Rightarrow> bytes" where
  "bytes_of s = map of_char s"

text \<open>
  The exceptions that can travel through the connection handler. \<open>NonException\<close>
  stands for a \<open>BaseException\<close> that is not an \<open>Exception\<close> (\<open>KeyboardInterrupt\<close>,
  \<open>SystemExit\<close>): no \<open>except Exception\<close> clause catches it.
\<close>

datatype exn = UnicodeDecodeError | UnicodeEncodeError | ValueError | OSError
  | OtherException | NonException

definition is_Exception :: "exn \<Rightarrow> bool" where
  "is_Exception e = (e \<noteq> NonException)"

section \<open>String operations of the Python runtime\<close>

text \<open>
  \<open>str.isspace\<close> for one character: the code points that \<open>str.split()\<close> with no
  argument treats as separators.
\<close>

definition isspace :: "nat \<Rightarrow> bool" where
  "isspace c \<longleftrightarrow>
     (0x09 \<le> c \<and> c \<le> 0x0D) \<or> (0x1C \<le> c \<and> c \<le> 0x20) \<or> c = 0x85 \<or> c = 0xA0 \<or>
     c = 0x1680 \<or> (0x2000 \<le> c \<and> c \<le> 0x200A) \<or> c = 0x2028 \<or> c = 0x2029 \<or>
     c = 0x202F \<or> c = 0x205F \<or> c = 0x3000"

text \<open>
  \<open>s.split()\<close>: the maximal runs of non-whitespace characters, in order. The first
  argument is the token being read.
\<close>

fun split_ws_from :: "str \<Rightarrow> str \<Rightarrow> str list" where
  "split_ws_from tok [] = (if tok = [] then [] else [tok])"
| "split_ws_from tok (c # cs) =
     (if isspace c then (if tok = [] then split_ws_from [] cs else tok # split_ws_from [] cs)
      else split_ws_from (tok @ [c]) cs)"

definition split_ws :: "str \<Rightarrow> str list" where
  "split_ws s = split_ws_from [] s"

text \<open>\<open>s.split("\r\n")\<close>: the pieces between the occurrences of CR LF, scanned from the left.\<close>

fun split_crlf :: "str \<Rightarrow> str list" where
  "split_crlf [] = [[]]"
| "split_crlf [c] = [[c]]"
| "split_crlf (c # d # cs) =
     (if c = 13 \<and> d = 10 then [] # split_crlf cs
      else (case split_crlf (d # cs) of [] \<Rightarrow> [[c]] | l # ls \<Rightarrow> (c # l) # ls))"

text \<open>\<open>s.split(sep)\<close> for a separator of one element, on strings and on bytes.\<close>

fun split_char :: "'a \<Rightarrow> 'a list \<Rightarrow> 'a list list" where
  "split_char sep [] = [[]]"
| "split_char sep (c # cs) =
     (if c = sep then [] # split_char sep cs
      else (case split_char sep cs of [] \<Rightarrow> [[c]] | p # ps \<Rightarrow> (c # p) # ps))"

text \<open>
  \<open>s.partition(sep)\<close> for a separator of one character: the part before the first
  occurrence, whether there is one, and the part after it.
\<close>

definition partition_char :: "'a \<Rightarrow> 'a list \<Rightarrow> 'a list \<times> bool \<times> 'a list" where
  "partition_char sep s =
     (takeWhile (\<lambda>c. c \<noteq> sep) s, sep \<in> set s, drop 1 (dropWhile (\<lambda>c. c \<noteq> sep) s))"

text \<open>\<open>str(n)\<close> and the \<open>{n}\<close> of an f-string for an integer: its decimal digits.\<close>

fun str_nat :: "nat \<Rightarrow> str" where
  "str_nat n = (if n < 10 then [48 + n] else str_nat (n div 10) @ [48 + n mod 10])"

declare str_nat.simps [simp del]

definition str_int :: "int \<Rightarrow> str" where
  "str_int i = (if i < 0 then 45 # str_nat (nat (- i)) else str_nat (nat i))"

section \<open>The UTF-8 codec\<close>

text \<open>
  \<open>s.encode("utf-8")\<close>. A surrogate code point (\<open>0xD800\<close> to \<open>0xDFFF\<close>) cannot be
  encoded: the call raises \<open>UnicodeEncodeError\<close>.
\<close>

definition encode_cp :: "nat \<Rightarrow> exn + bytes" where
  "encode_cp c =
     (if c < 0x80 then Inr [of_nat c]
      else if c < 0x800 then Inr [of_nat (0xC0 + c div 64), of_nat (0x80 + c mod 64)]
      else if 0xD800 \<le> c \<and> c \<le> 0xDFFF then Inl UnicodeEncodeError
      else if c < 0x10000 then
        Inr [of_nat (0xE0 + c div 4096), of_nat (0x80 + c div 64 mod 64), of_nat (0x80 + c mod 64)]
      else if c < 0x110000 then
        Inr [of_nat (0xF0 + c div 262144), of_nat (0x80 + c div 4096 mod 64),
             of_nat (0x80 + c div 64 mod 64), of_nat (0x80 + c mod 64)]
      else Inl UnicodeEncodeError)"

fun encode :: "str \<Rightarrow> exn + bytes" where
  "encode [] = Inr []"
| "encode (c # cs) =
     (case encode_cp c of
        Inl e \<Rightarrow> Inl e
      | Inr b \<Rightarrow> (case encode cs of Inl e \<Rightarrow> Inl e | Inr bs \<Rightarrow> Inr (b @ bs)))"

text \<open>
  One step of the decoder at the head of a non-empty buffer: either a code point and
  the number of bytes it took, or an error covering the given number of bytes (the
  bytes of the malformed sequence that were well-formed so far, at least one).
\<close>

datatype utf8_step = Decoded nat nat | Invalid nat

definition is_cont :: "byte \<Rightarrow> bool" where
  "is_cont b \<longleftrightarrow> 0x80 \<le> unat b \<and> unat b < 0xC0"

definition utf8_step :: "byte \<Rightarrow> bytes \<Rightarrow> utf8_step" where
  "utf8_step b bs =
     (let ch = unat b in
      if ch < 0x80 then Decoded ch 1
      else if ch < 0xC2 then Invalid 1
      else if ch < 0xE0 then
        (case bs of
           [] \<Rightarrow> Invalid 1
         | b2 # _ \<Rightarrow>
             if is_cont b2 then Decoded ((ch mod 32) * 64 + unat b2 mod 64) 2 else Invalid 1)
      else if ch < 0xF0 then
        (case bs of
           [] \<Rightarrow> Invalid 1
         | b2 # bs2 \<Rightarrow>
             if \<not> is_cont b2 \<or> (ch = 0xE0 \<and> unat b2 < 0xA0) \<or> (ch = 0xED \<and> 0xA0 \<le> unat b2)
             then Invalid 1
             else (case bs2 of
                     [] \<Rightarrow> Invalid 2
                   | b3 # _ \<Rightarrow>
                       if is_cont b3
                       then Decoded ((ch mod 16) * 4096 + (unat b2 mod 64) * 64 + unat b3 mod 64) 3
                       else Invalid 2))
      else if ch < 0xF5 then
        (case bs of
           [] \<Rightarrow> Invalid 1
         | b2 # bs2 \<Rightarrow>
             if \<not> is_cont b2 \<or> (ch = 0xF0 \<and> unat b2 < 0x90) \<or> (ch = 0xF4 \<and> 0x90 \<le> unat b2)
             then Invalid 1
             else (case bs2 of
                     [] \<Rightarrow> Invalid 2
                   | b3 # bs3 \<Rightarrow>
                       if \<not> is_cont b3 then Invalid 2
                       else (case bs3 of
                               [] \<Rightarrow> Invalid 3
                             | b4 # _ \<Rightarrow>
                                 if is_cont b4
                                 then Decoded ((ch mod 8) * 262144 + (unat b2 mod 64) * 4096
                                               + (unat b3 mod 64) * 64 + unat b4 mod 64) 4
                                 else Invalid 3)))
      else Invalid 1)"

text \<open>
  The decoder's scan of a buffer: the code points in order, with \<open>None\<close> at every
  malformed sequence.
\<close>

function utf8_scan :: "bytes \<Rightarrow> nat option list" where
  "utf8_scan [] = []"
| "utf8_scan (b # bs) =
     (case utf8_step b bs of
        Decoded c n \<Rightarrow> Some c # utf8_scan (drop n (b # bs))
      | Invalid n \<Rightarrow> None # utf8_scan (drop n (b # bs)))"
  by pat_completeness auto
termination
proof (relation "measure length")
  show "wf (measure length)" by simp
next
  fix b :: byte and bs :: bytes and c n :: nat
  assume "utf8_step b bs = Decoded c n"
  then have "0 < n"
    by (auto simp: utf8_step_def Let_def split: if_splits list.splits)
  then show "(drop n (b # bs), b # bs) \<in> measure length"
    by (cases n) auto
next
  fix b :: byte and bs :: bytes and n :: nat
  assume "utf8_step b bs = Invalid n"
  then have "0 < n"
    by (auto simp: utf8_step_def Let_def split: if_splits list.splits)
  then show "(drop n (b # bs), b # bs) \<in> measure length"
    by (cases n) auto
qed

text \<open>
  \<open>b.decode("utf-8")\<close>, the strict handler: \<open>UnicodeDecodeError\<close> when the buffer
  holds a malformed sequence.
\<close>

definition decode :: "bytes \<Rightarrow> exn + str" where
  "decode b = (case those (utf8_scan b) of None \<Rightarrow> Inl UnicodeDecodeError | Some s \<Rightarrow> Inr s)"

text \<open>
  \<open>b.decode("utf-8", "replace")\<close>: U+FFFD in the place of every malformed sequence.
\<close>

definition decode_replace :: "bytes \<Rightarrow> str" where
  "decode_replace b = map (\<lambda>x. case x of None \<Rightarrow> 0xFFFD | Some c \<Rightarrow> c) (utf8_scan b)"

section \<open>The functions of \<open>urllib.parse\<close> that the parser calls\<close>

text \<open>
  The library functions are modelled after CPython 3.11; the annotations of the source
  need Python 3.9 or later to be imported. Two tables of the standard library are
  parameters of the model: the NFKC normalisation of \<open>unicodedata\<close> and the address
  parser of \<open>ipaddress\<close> (\<open>None\<close> when it raises \<open>ValueError\<close>). The URL splitter
  consults them only for a target whose authority part has a bracketed host or a
  non-ASCII character.
\<close>

datatype ipver = IPv4 | IPv6

record stdlib =
  nfkc :: "str \<Rightarrow> str"
  ip_address :: "str \<Rightarrow> ipver option"

record parse_result =
  url_scheme :: str
  url_netloc :: str
  url_path :: str
  url_params :: str
  url_query :: str
  url_fragment :: str

definition isalpha_ascii :: "nat \<Rightarrow> bool" where
  "isalpha_ascii c \<longleftrightarrow> (65 \<le> c \<and> c \<le> 90) \<or> (97 \<le> c \<and> c \<le> 122)"

definition scheme_chars :: "nat \<Rightarrow> bool" where
  "scheme_chars c \<longleftrightarrow>
     isalpha_ascii c \<or> (48 \<le> c \<and> c \<le> 57) \<or> c = 43 \<or> c = 45 \<or> c = 46"

definition lower_ascii :: "nat \<Rightarrow> nat" where
  "lower_ascii c = (if 65 \<le> c \<and> c \<le> 90 then c + 32 else c)"

definition ishex :: "nat \<Rightarrow> bool" where
  "ishex c \<longleftrightarrow> (48 \<le> c \<and> c \<le> 57) \<or> (65 \<le> c \<and> c \<le> 70) \<or> (97 \<le> c \<and> c \<le> 102)"

definition hexval :: "nat \<Rightarrow> nat" where
  "hexval c = (if c \<le> 57 then c - 48 else if c \<le> 70 then c - 55 else c - 87)"

definition uses_params :: "str list" where
  "uses_params = map str_of
     [[], ''ftp'', ''hdl'', ''prospero'', ''http'', ''imap'', ''https'', ''shttp'', ''rtsp'',
      ''rtsps'', ''rtspu'', ''sip'', ''sips'', ''mms'', ''sftp'', ''tel'']"

text \<open>\<open>_splitparams\<close>: the parameters after the first \<open>;\<close> of the last path segment.\<close>

definition splitparams :: "str \<Rightarrow> str \<times> str" where
  "splitparams url =
     (if 47 \<in> set url then
        (let j = length url - 1 - length (takeWhile (\<lambda>c. c \<noteq> 47) (rev url));
             seg = drop j url
         in if 59 \<in> set seg
            then (let i = j + length (takeWhile (\<lambda>c. c \<noteq> 59) seg) in (take i url, drop (i + 1) url))
            else (url, []))
      else (let i = length (takeWhile (\<lambda>c. c \<noteq> 59) url) in (take i url, drop (i + 1) url)))"

text \<open>\<open>_splitnetloc(url, 2)\<close>: the authority runs to the first \<open>/\<close>, \<open>?\<close> or \<open>#\<close>.\<close>

definition splitnetloc :: "str \<Rightarrow> str \<times> str" where
  "splitnetloc url =
     (let r = drop 2 url; d = (\<lambda>c. c \<noteq> 47 \<and> c \<noteq> 63 \<and> c \<noteq> 35)
      in (takeWhile d r, dropWhile d r))"

text \<open>
  \<open>_check_bracketed_host\<close>: \<open>True\<close> when it returns, \<open>False\<close> when it raises
  \<open>ValueError\<close>. A host that starts with \<open>v\<close> must match
  \<open>v[a-fA-F0-9]+\..+\<close>; any other must be an IPv6 address.
\<close>

definition check_bracketed_host :: "stdlib \<Rightarrow> str \<Rightarrow> bool" where
  "check_bracketed_host lib hostname =
     (if take 1 hostname = [118] then
        (let r = drop 1 hostname; t = dropWhile ishex r
         in takeWhile ishex r \<noteq> [] \<and> take 1 t = [46] \<and> 2 \<le> length t)
      else (case ip_address lib hostname of
              None \<Rightarrow> False
            | Some IPv4 \<Rightarrow> False
            | Some IPv6 \<Rightarrow> True))"

text \<open>\<open>_checknetloc\<close>: \<open>True\<close> when it returns, \<open>False\<close> when it raises \<open>ValueError\<close>.\<close>

definition checknetloc :: "stdlib \<Rightarrow> str \<Rightarrow> bool" where
  "checknetloc lib netloc =
     (if netloc = [] \<or> (\<forall>c \<in> set netloc. c < 128) then True
      else (let n = filter (\<lambda>c. c \<noteq> 64 \<and> c \<noteq> 58 \<and> c \<noteq> 35 \<and> c \<noteq> 63) netloc;
                netloc2 = nfkc lib n
            in if n = netloc2 then True
               else \<not> (\<exists>c \<in> set netloc2. c = 47 \<or> c = 63 \<or> c = 35 \<or> c = 64 \<or> c = 58)))"

text \<open>
  \<open>urlsplit(url)\<close> with the default scheme and fragments allowed, then \<open>urlparse\<close>,
  which splits the parameters off the path.
\<close>

definition urlsplit :: "stdlib \<Rightarrow> str \<Rightarrow> exn + parse_result" where
  "urlsplit lib url0 =
     (let url1 = dropWhile (\<lambda>c. c \<le> 0x20) url0;
          url2 = filter (\<lambda>c. c \<noteq> 9 \<and> c \<noteq> 13 \<and> c \<noteq> 10) url1;
          i = length (takeWhile (\<lambda>c. c \<noteq> 58) url2);
          has_scheme = (58 \<in> set url2 \<and> 0 < i \<and> isalpha_ascii (hd url2)
                        \<and> (\<forall>c \<in> set (take i url2). scheme_chars c));
          scheme = (if has_scheme then map lower_ascii (take i url2) else []);
          url3 = (if has_scheme then drop (i + 1) url2 else url2);
          has_netloc = (take 2 url3 = [47, 47]);
          netloc = (if has_netloc then fst (splitnetloc url3) else []);
          url4 = (if has_netloc then snd (splitnetloc url3) else url3)
      in if has_netloc \<and> ((91 \<in> set netloc \<and> 93 \<notin> set netloc) \<or> (93 \<in> set netloc \<and> 91 \<notin> set netloc))
         then Inl ValueError
         else if has_netloc \<and> 91 \<in> set netloc \<and> 93 \<in> set netloc \<and>
                 \<not> check_bracketed_host lib
                     (fst (partition_char 93 (snd (snd (partition_char 91 netloc)))))
         then Inl ValueError
         else
           (let fragment = (if 35 \<in> set url4 then snd (snd (partition_char 35 url4)) else []);
                url5 = (if 35 \<in> set url4 then fst (partition_char 35 url4) else url4);
                query = (if 63 \<in> set url5 then snd (snd (partition_char 63 url5)) else []);
                url6 = (if 63 \<in> set url5 then fst (partition_char 63 url5) else url5)
            in if \<not> checknetloc lib netloc then Inl ValueError
               else Inr \<lparr>url_scheme = scheme, url_netloc = netloc, url_path = url6,
                         url_params = [], url_query = query, url_fragment = fragment\<rparr>))"

definition urlparse :: "stdlib \<Rightarrow> str \<Rightarrow> exn + parse_result" where
  "urlparse lib url =
     (case urlsplit lib url of
        Inl e \<Rightarrow> Inl e
      | Inr r \<Rightarrow>
          if url_scheme r \<in> set uses_params \<and> 59 \<in> set (url_path r)
          then Inr (r\<lparr>url_path := fst (splitparams (url_path r)),
                      url_params := snd (splitparams (url_path r))\<rparr>)
          else Inr r)"

text \<open>
  \<open>unquote_to_bytes\<close> on the bytes of an ASCII string: a \<open>%\<close> followed by two
  hexadecimal digits becomes the byte they denote, any other \<open>%\<close> stays.
\<close>

definition unquote_item :: "bytes \<Rightarrow> bytes" where
  "unquote_item item =
     (case item of
        a # b # rest \<Rightarrow>
          if ishex (unat a) \<and> ishex (unat b)
          then of_nat (hexval (unat a) * 16 + hexval (unat b)) # rest
          else 0x25 # item
      | _ \<Rightarrow> 0x25 # item)"

definition unquote_to_bytes :: "bytes \<Rightarrow> bytes" where
  "unquote_to_bytes string =
     (case split_char 0x25 string of
        [] \<Rightarrow> []
      | first # items \<Rightarrow> first @ concat (map unquote_item items))"

text \<open>
  \<open>unquote(string)\<close> with \<open>utf-8\<close> and \<open>replace\<close>: every maximal run of ASCII
  characters is unquoted to bytes and decoded, the characters between the runs stay.
  The first argument of \<open>unquote_from\<close> is the ASCII run being read; its encoding
  to bytes is the run itself.
\<close>

definition unquote_run :: "str \<Rightarrow> str" where
  "unquote_run run = decode_replace (unquote_to_bytes (map of_nat run))"

fun unquote_from :: "str \<Rightarrow> str \<Rightarrow> str" where
  "unquote_from run [] = unquote_run run"
| "unquote_from run (c # cs) =
     (if c < 128 then unquote_from (run @ [c]) cs
      else unquote_run run @ c # unquote_from [] cs)"

definition unquote :: "str \<Rightarrow> str" where
  "unquote string = (if 37 \<notin> set string then string else unquote_from [] string)"

definition unquote_plus :: "str \<Rightarrow> str" where
  "unquote_plus string = unquote (map (\<lambda>c. if c = 43 then 32 else c) string)"

text \<open>
  \<open>parse_qsl(qs)\<close> with its defaults (separator \<open>&\<close>, blank values dropped, no strict
  parsing): \<open>parse_field\<close> is the body of its loop over the fields.
\<close>

definition parse_field :: "str \<Rightarrow> (str \<times> str) list" where
  "parse_field name_value =
     (if name_value \<noteq> [] then
        (case partition_char 61 name_value of
           (name, has_eq, val) \<Rightarrow>
             if val \<noteq> [] then [(unquote_plus name, unquote_plus val)] else [])
      else [])"

definition parse_qsl :: "str \<Rightarrow> (str \<times> str) list" where
  "parse_qsl qs = (if qs = [] then [] else concat (map parse_field (split_char 38 qs)))"

text \<open>
  The dictionary of \<open>parse_qs\<close>, as an association list in insertion order:
  a name already present gets the value appended, a new name a one-element list.
\<close>

type_synonym params = "(str \<times> str list) list"

fun add_value :: "params \<Rightarrow> str \<times> str \<Rightarrow> params" where
  "add_value [] (name, val) = [(name, [val])]"
| "add_value ((k, vs) # d) (name, val) =
     (if k = name then (k, vs @ [val]) # d else (k, vs) # add_value d (name, val))"

definition parse_qs :: "str \<Rightarrow> params" where
  "parse_qs qs = foldl add_value [] (parse_qsl qs)"

section \<open>The request parser\<close>

text \<open>
  \<open>parse_http_request\<close>: the method, the path and the query parameters of the
  request line, \<open>("", "", {})\<close> when the line has fewer than two tokens. A
  \<open>ValueError\<close> of \<open>urlparse\<close> leaves the function as it is raised.
\<close>

definition parse_http_request :: "stdlib \<Rightarrow> str \<Rightarrow> exn + (str \<times> str \<times> params)" where
  "parse_http_request lib request =
     (case split_crlf request of
        [] \<Rightarrow> Inr ([], [], [])
      | request_line # _ \<Rightarrow>
          (case split_ws request_line of
             method # full_path # _ \<Rightarrow>
               (case urlparse lib full_path of
                  Inl e \<Rightarrow> Inl e
                | Inr parsed_url \<Rightarrow>
                    Inr (method, url_path parsed_url, parse_qs (url_query parsed_url)))
           | _ \<Rightarrow> Inr ([], [], [])))"

section \<open>The response builder\<close>

text \<open>
  \<open>create_http_response\<close>: the header block is formatted as a string, with the
  byte length of the encoded body as \<open>Content-Length\<close>, and encoded; the encoded
  body follows it. Either encoding can raise \<open>UnicodeEncodeError\<close>.
\<close>

definition create_http_response :: "int \<Rightarrow> str \<Rightarrow> str \<Rightarrow> exn + bytes" where
  "create_http_response status_code status_text body =
     (case encode body of
        Inl e \<Rightarrow> Inl e
      | Inr body_bytes \<Rightarrow>
          (let headers =
                 str_of ''HTTP/1.1 '' @ str_int status_code @ str_of '' '' @ status_text @ [13, 10]
                 @ str_of ''Content-Type: text/html; charset=utf-8'' @ [13, 10]
                 @ str_of ''Content-Length: '' @ str_nat (length body_bytes) @ [13, 10]
                 @ str_of ''Connection: close'' @ [13, 10]
                 @ [13, 10]
           in case encode headers of
                Inl e \<Rightarrow> Inl e
              | Inr header_bytes \<Rightarrow> Inr (header_bytes @ body_bytes)))"

section \<open>The pages\<close>

text \<open>The body that \<open>get_index_page\<close> returns.\<close>

definition get_index_page :: str where
  "get_index_page =
     concat
     [[10],
      str_of ''    <!DOCTYPE html>'' @ [10],
      str_of ''    <html>'' @ [10],
      str_of ''        <head>'' @ [10],
      str_of ''            <meta charset='' @ [34] @ str_of ''utf-8'' @ [34] @ str_of ''>'' @ [10],
      str_of ''            <title>TCP HTTP Server</title>'' @ [10],
      str_of ''            <style>'' @ [10],
      str_of ''                body { '' @ [10],
      str_of ''                    font-family: Monocraft, sans-serif; max-width: 800px;'' @ [10],
      str_of ''                    margin: 50px auto;'' @ [10],
      str_of ''                    padding: 20px;'' @ [10],
      str_of ''                }'' @ [10],
      str_of ''                h1 { color: #333; }'' @ [10],
      str_of ''                ul { list-style-type: none; padding: 0; }'' @ [10],
      str_of ''                li { margin: 10px 0; }'' @ [10],
      str_of ''                a { color: #0066cc; text-decoration: none; }'' @ [10],
      str_of ''                a:hover { text-decoration: underline; }'' @ [10],
      str_of ''            </style>'' @ [10],
      str_of ''        </head>'' @ [10],
      str_of ''        <body>'' @ [10],
      str_of ''            <h1>'' @ [1052, 1085, 1086, 1075, 1086, 1087, 1086, 1090, 1086, 1095, 1085, 1099, 1081] @ str_of '' TCP HTTP Server</h1>'' @ [10],
      str_of ''            <p>'' @ [1044, 1086, 1089, 1090, 1091, 1087, 1085, 1099, 1077] @ str_of '' '' @ [1089, 1077, 1088, 1074, 1080, 1089, 1099] @ str_of '':</p>'' @ [10],
      str_of ''            <ul>'' @ [10],
      str_of ''                <li><a href='' @ [34] @ str_of ''movies'' @ [34] @ str_of ''>'' @ [1055, 1086, 1080, 1089, 1082] @ str_of '' '' @ [1092, 1080, 1083, 1100, 1084, 1086, 1074] @ str_of ''</a></li>'' @ [10],
      str_of ''                <li><a href='' @ [34] @ str_of ''/exchange?currency=USD'' @ [34] @ str_of ''>'' @ [1050, 1091, 1088, 1089, 1099] @ str_of '' '' @ [1074, 1072, 1083, 1102, 1090] @ str_of '' (USD)</a></li>'' @ [10],
      str_of ''                <li><a href='' @ [34] @ str_of ''/exchange?currency=EUR'' @ [34] @ str_of ''>'' @ [1050, 1091, 1088, 1089, 1099] @ str_of '' '' @ [1074, 1072, 1083, 1102, 1090] @ str_of '' (EUR)</a></li>'' @ [10],
      str_of ''                <li><a href='' @ [34] @ str_of ''/exchange?currency=GBP'' @ [34] @ str_of ''>'' @ [1050, 1091, 1088, 1089, 1099] @ str_of '' '' @ [1074, 1072, 1083, 1102, 1090] @ str_of '' (GBP)</a></li>'' @ [10],
      str_of ''                <li><a href='' @ [34] @ str_of ''/exchange?currency=JPY'' @ [34] @ str_of ''>'' @ [1050, 1091, 1088, 1089, 1099] @ str_of '' '' @ [1074, 1072, 1083, 1102, 1090] @ str_of '' (JPY)</a></li>'' @ [10],
      str_of ''                <li><a href='' @ [34] @ str_of ''/movie?title=Matrix'' @ [34] @ str_of ''>'' @ [1048, 1085, 1092, 1086, 1088, 1084, 1072, 1094, 1080, 1103] @ str_of '' '' @ [1086] @ str_of '' '' @ [1092, 1080, 1083, 1100, 1084, 1077] @ str_of '': Matrix</a></li>'' @ [10],
      str_of ''                <li><a href='' @ [34] @ str_of ''/movie?title=Inception'' @ [34] @ str_of ''>'' @ [1048, 1085, 1092, 1086, 1088, 1084, 1072, 1094, 1080, 1103] @ str_of '' '' @ [1086] @ str_of '' '' @ [1092, 1080, 1083, 1100, 1084, 1077] @ str_of '': Inception</a></li>'' @ [10],
      str_of ''                <li><a href='' @ [34] @ str_of ''/movie?title=The Shawshank Redemption'' @ [34] @ str_of ''>'' @ [1048, 1085, 1092, 1086, 1088, 1084, 1072, 1094, 1080, 1103] @ str_of '' '' @ [1086] @ str_of '' '' @ [1092, 1080, 1083, 1100, 1084, 1077] @ str_of '': The Shawshank Redemption</a></li>'' @ [10],
      str_of ''            </ul>'' @ [10],
      str_of ''        </body>'' @ [10],
      str_of ''    </html>'' @ [10],
      str_of ''    '']"

text \<open>The body that \<open>get_search_movies\<close> returns.\<close>

definition get_search_movies :: str where
  "get_search_movies =
     concat
     [[10],
      str_of ''    <!DOCTYPE html>'' @ [10],
      str_of ''    <html>'' @ [10],
      str_of ''    <head>'' @ [10],
      str_of ''        <meta charset='' @ [34] @ str_of ''UTF-8'' @ [34] @ str_of '' />'' @ [10],
      str_of ''        <title>'' @ [1055, 1086, 1080, 1089, 1082] @ str_of '' '' @ [1092, 1080, 1083, 1100, 1084, 1086, 1074] @ str_of ''</title>'' @ [10],
      str_of ''        <style>'' @ [10],
      str_of ''            body {'' @ [10],
      str_of ''                    font-family: Monocraft, sans-serif; max-width: 800px;'' @ [10],
      str_of ''                    margin: 50px auto;'' @ [10],
      str_of ''                    padding: 20px;'' @ [10],
      str_of ''                }'' @ [10],
      str_of ''                h1 { color: #333; }'' @ [10],
      str_of ''                a { color: #0066cc; text-decoration: none; }'' @ [10],
      str_of ''                a:hover { text-decoration: underline; }'' @ [10],
      str_of ''        </style>'' @ [10],
      str_of ''    </head>'' @ [10],
      str_of ''    <body>'' @ [10],
      str_of ''        <form action='' @ [34] @ str_of ''/movie'' @ [34] @ str_of '' method='' @ [34] @ str_of ''get'' @ [34] @ str_of ''>'' @ [10],
      str_of ''        <h1>'' @ [1055, 1086, 1080, 1089, 1082] @ str_of '' '' @ [1092, 1080, 1083, 1100, 1084, 1086, 1074] @ str_of ''</h1>'' @ [10],
      str_of ''        <input type='' @ [34] @ str_of ''text'' @ [34] @ str_of '' name='' @ [34] @ str_of ''title'' @ [34] @ str_of '' placeholder='' @ [34, 1053, 1072, 1079, 1074, 1072, 1085, 1080, 1077] @ str_of '' '' @ [1092, 1080, 1083, 1100, 1084, 1072, 34] @ str_of ''>'' @ [10],
      str_of ''        <button type='' @ [34] @ str_of ''submit'' @ [34] @ str_of ''>'' @ [1053, 1072, 1080, 774, 1090, 1080] @ str_of ''</button>'' @ [10],
      str_of ''        </form>'' @ [10],
      str_of ''        <p style='' @ [34] @ str_of ''margin-top: 30px;'' @ [34] @ str_of ''><a href='' @ [34] @ str_of ''/'' @ [34] @ str_of ''>'' @ [1053, 1072] @ str_of '' '' @ [1075, 1083, 1072, 1074, 1085, 1091, 1102] @ str_of ''</a></p>'' @ [10],
      str_of ''    </body>'' @ [10],
      str_of ''    </html>'' @ [10],
      str_of ''    '']"

text \<open>The f-string of the not-found body: the text before \<open>{path}\<close> and the text after it.\<close>

definition not_found_prefix :: str where
  "not_found_prefix =
     concat
     [[10],
      str_of ''            <!DOCTYPE html>'' @ [10],
      str_of ''            <html>'' @ [10],
      str_of ''                <head>'' @ [10],
      str_of ''                    <meta charset='' @ [34] @ str_of ''utf-8'' @ [34] @ str_of ''>'' @ [10],
      str_of ''                    <title>404 - '' @ [1053, 1077] @ str_of '' '' @ [1085, 1072, 1081, 1076, 1077, 1085, 1086] @ str_of ''</title>'' @ [10],
      str_of ''                </head>'' @ [10],
      str_of ''                <body>'' @ [10],
      str_of ''                    <h1>404 - '' @ [1057, 1090, 1088, 1072, 1085, 1080, 1094, 1072] @ str_of '' '' @ [1085, 1077] @ str_of '' '' @ [1085, 1072, 1081, 1076, 1077, 1085, 1072] @ str_of ''</h1>'' @ [10],
      str_of ''                    <p>'' @ [1055, 1091, 1090, 1100] @ str_of '' '']"

definition not_found_suffix :: str where
  "not_found_suffix =
     concat
     [str_of '' '' @ [1085, 1077] @ str_of '' '' @ [1085, 1072, 1081, 1076, 1077, 1085] @ str_of '' '' @ [1085, 1072] @ str_of '' '' @ [1089, 1077, 1088, 1074, 1077, 1088, 1077] @ str_of ''.</p>'' @ [10],
      str_of ''                    <a href='' @ [34] @ str_of ''/'' @ [34] @ str_of ''>'' @ [1053, 1072] @ str_of '' '' @ [1075, 1083, 1072, 1074, 1085, 1091, 1102] @ str_of ''</a>'' @ [10],
      str_of ''                </body>'' @ [10],
      str_of ''            </html>'' @ [10],
      str_of ''            '']"

text \<open>The bodies of the two error responses.\<close>

definition bad_request_body :: str where
  "bad_request_body =
     concat
     [str_of ''<h1>400 - Bad Request</h1><p>'' @ [1053, 1077, 1074, 1077, 1088, 1085, 1099, 1081] @ str_of '' '' @ [1092, 1086, 1088, 1084, 1072, 1090] @ str_of '' '' @ [1079, 1072, 1087, 1088, 1086, 1089, 1072] @ str_of ''</p>'']"

definition internal_error_body :: str where
  "internal_error_body =
     concat
     [str_of ''<h1>500 - Internal Server Error</h1>'']"

definition not_found_page :: "str \<Rightarrow> str" where
  "not_found_page path = not_found_prefix @ path @ not_found_suffix"

section \<open>The connection handler\<close>

text \<open>
  What a run of \<open>handle_client\<close> meets outside the program: the two library tables,
  what \<open>client_socket.recv(BUFFER_SIZE)\<close> gives (the bytes read, or an exception),
  whether the \<open>n\<close>-th call of \<open>client_socket.sendall\<close> (counted from 0) raises on the
  bytes it is given, whether \<open>client_socket.close()\<close> raises, and the two content
  handlers, which call remote services: each is a function from the query parameters
  to an HTML body or an exception. The \<open>print\<close> calls of the handler write to the
  standard output; they are taken to succeed and are left out.
\<close>

record env =
  lib :: stdlib
  sock_recv :: "exn + bytes"
  sock_sendall :: "nat \<Rightarrow> bytes \<Rightarrow> exn option"
  sock_close :: "exn option"
  handle_exchange_request :: "params \<Rightarrow> exn + str"
  handle_movie_request :: "params \<Rightarrow> exn + str"

text \<open>The calls a run makes on the client socket, in order.\<close>

datatype event = SendAll bytes | Close

text \<open>
  The route selection of \<open>handle_client\<close>: status code, status text and body for a
  path and its parameters. The method is not consulted.
\<close>

definition dispatch :: "env \<Rightarrow> str \<Rightarrow> params \<Rightarrow> exn + (int \<times> str \<times> str)" where
  "dispatch env path params =
     (if path = str_of ''/'' \<or> path = [] then Inr (200, str_of ''OK'', get_index_page)
      else if path = str_of ''/movies'' then Inr (200, str_of ''OK'', get_search_movies)
      else if path = str_of ''/exchange'' then
        (case handle_exchange_request env params of
           Inl e \<Rightarrow> Inl e
         | Inr response_body \<Rightarrow> Inr (200, str_of ''OK'', response_body))
      else if path = str_of ''/movie'' then
        (case handle_movie_request env params of
           Inl e \<Rightarrow> Inl e
         | Inr response_body \<Rightarrow> Inr (200, str_of ''OK'', response_body))
      else Inr (404, str_of ''Not Found'', not_found_page path))"

text \<open>
  The \<open>try\<close> block of \<open>handle_client\<close>: the socket calls it made and the exception
  it ended with, \<open>None\<close> when it returned or ran to its end.
\<close>

definition try_block :: "env \<Rightarrow> event list \<times> exn option" where
  "try_block env =
     (case sock_recv env of
        Inl e \<Rightarrow> ([], Some e)
      | Inr request_data \<Rightarrow>
          if request_data = [] then ([], None)
          else
            (case decode request_data of
               Inl e \<Rightarrow> ([], Some e)
             | Inr request_str \<Rightarrow>
                 (case parse_http_request (lib env) request_str of
                    Inl e \<Rightarrow> ([], Some e)
                  | Inr (method, path, params) \<Rightarrow>
                      (case dispatch env path params of
                         Inl e \<Rightarrow> ([], Some e)
                       | Inr (status_code, status_text, response_body) \<Rightarrow>
                           (case create_http_response status_code status_text response_body of
                              Inl e \<Rightarrow> ([], Some e)
                            | Inr response \<Rightarrow>
                                ([SendAll response], sock_sendall env 0 response))))))"

text \<open>
  The two \<open>except\<close> clauses, given the calls made so far and the exception raised:
  \<open>UnicodeDecodeError\<close> sends the 400 response, and an exception of that send leaves
  the handler; any other \<open>Exception\<close> sends the 500 response, and an \<open>Exception\<close>
  of that send is swallowed.
\<close>

definition except_clauses :: "env \<Rightarrow> event list \<Rightarrow> exn \<Rightarrow> event list \<times> exn option" where
  "except_clauses env tr e =
     (if e = UnicodeDecodeError then
        (case create_http_response 400 (str_of ''Bad Request'') bad_request_body of
           Inl e' \<Rightarrow> (tr, Some e')
         | Inr error_response \<Rightarrow>
             (tr @ [SendAll error_response], sock_sendall env (length tr) error_response))
      else if is_Exception e then
        (case create_http_response 500 (str_of ''Internal Server Error'') internal_error_body of
           Inl e' \<Rightarrow> (tr, Some e')
         | Inr error_response \<Rightarrow>
             (tr @ [SendAll error_response],
              case sock_sendall env (length tr) error_response of
                None \<Rightarrow> None
              | Some e' \<Rightarrow> if is_Exception e' then None else Some e'))
      else (tr, Some e))"

text \<open>
  \<open>handle_client\<close>: the \<open>try\<close> block, the \<open>except\<close> clause of its exception if
  any, and the \<open>finally\<close> clause, which closes the socket and swallows an
  \<open>Exception\<close> of the close. The result is the calls made on the socket and the
  exception that leaves the handler, if any.
\<close>

definition handle_client :: "env \<Rightarrow> event list \<times> exn option" where
  "handle_client env =
     (case try_block env of
        (tr, r) \<Rightarrow>
          (case (case r of None \<Rightarrow> (tr, None) | Some e \<Rightarrow> except_clauses env tr e) of
             (tr', r') \<Rightarrow>
               (tr' @ [Close],
                case sock_close env of
                  None \<Rightarrow> r'
                | Some e \<Rightarrow> if is_Exception e then r' else Some e)))"


section \<open>The response format of the specification\<close>

text \<open>
  The outbound wire format as the specification words it, on bytes: the status line
  with the code in decimal and the reason, the three fixed header lines with the
  length of the body in decimal, a blank line, and the body.
\<close>

definition spec_response :: "int \<Rightarrow> bytes \<Rightarrow> bytes \<Rightarrow> bytes" where
  "spec_response code reason body =
     bytes_of ''HTTP/1.1 '' @ map of_nat (str_int code) @ bytes_of '' '' @ reason @ [13, 10]
     @ bytes_of ''Content-Type: text/html; charset=utf-8'' @ [13, 10]
     @ bytes_of ''Content-Length: '' @ map of_nat (str_nat (length body)) @ [13, 10]
     @ bytes_of ''Connection: close'' @ [13, 10]
     @ [13, 10]
     @ body"

section \<open>Form decoding as the specification words it\<close>

text \<open>
  The decoding of a name or value of a form-encoded query, read off the words of the
  specification and not off the library's code: a hexadecimal digit is one of
  \<open>0\<close> to \<open>9\<close>, \<open>A\<close> to \<open>F\<close>, \<open>a\<close> to \<open>f\<close>; scanning from the left, a
  \<open>%\<close> followed by two hexadecimal digits stands for the byte they denote and any
  other character for itself.
\<close>

definition spec_is_hex :: "nat \<Rightarrow> bool" where
  "spec_is_hex c \<longleftrightarrow> (48 \<le> c \<and> c \<le> 57) \<or> (65 \<le> c \<and> c \<le> 70) \<or> (97 \<le> c \<and> c \<le> 102)"

definition spec_hex_value :: "nat \<Rightarrow> nat" where
  "spec_hex_value c = (if c \<le> 57 then c - 48 else if c \<le> 70 then 10 + (c - 65) else 10 + (c - 97))"

fun spec_percent_decode :: "str \<Rightarrow> bytes" where
  "spec_percent_decode (c # a # b # rest) =
     (if c = 37 \<and> spec_is_hex a \<and> spec_is_hex b
      then of_nat (16 * spec_hex_value a + spec_hex_value b) # spec_percent_decode rest
      else of_nat c # spec_percent_decode (a # b # rest))"
| "spec_percent_decode (c # cs) = of_nat c # spec_percent_decode cs"
| "spec_percent_decode [] = []"

text \<open>
  A whole name or value: every \<open>+\<close> is a space, every maximal run of ASCII characters
  is percent-decoded and its bytes are decoded as UTF-8, with U+FFFD for what is
  malformed, and the characters beyond ASCII stay. The first argument of
  \<open>spec_form_decode_from\<close> is the run being read.
\<close>

definition spec_decode_run :: "str \<Rightarrow> str" where
  "spec_decode_run run = decode_replace (spec_percent_decode run)"

fun spec_form_decode_from :: "str \<Rightarrow> str \<Rightarrow> str" where
  "spec_form_decode_from run [] = spec_decode_run run"
| "spec_form_decode_from run (c # cs) =
     (if c = 43 then spec_form_decode_from (run @ [32]) cs
      else if c < 128 then spec_form_decode_from (run @ [c]) cs
      else spec_decode_run run @ c # spec_form_decode_from [] cs)"

definition spec_form_decode :: "str \<Rightarrow> str" where
  "spec_form_decode s = spec_form_decode_from [] s"

section \<open>Sample environments\<close>


definition plain_lib :: stdlib where
  "plain_lib = \<lparr>nfkc = (\<lambda>s. s), ip_address = (\<lambda>s. None)\<rparr>"

definition plain_env :: "exn + bytes \<Rightarrow> env" where
  "plain_env r =
     \<lparr>lib = plain_lib, sock_recv = r, sock_sendall = (\<lambda>n b. None), sock_close = None,
      handle_exchange_request = (\<lambda>p. Inr (str_of ''<p>1 EUR = 100 RUB</p>'')),
      handle_movie_request = (\<lambda>p. Inr (str_of ''<p>Matrix</p>''))\<rparr>"

section \<open>Properties of the codec and the response builder\<close>

lemma encode_append:
  "encode (a @ b) =
     (case encode a of
        Inl e \<Rightarrow> Inl e
      | Inr x \<Rightarrow> (case encode b of Inl e \<Rightarrow> Inl e | Inr y \<Rightarrow> Inr (x @ y)))"
  by (induction a) (auto split: sum.splits)

lemma encode_ascii: "\<forall>c \<in> set s. c < 128 \<Longrightarrow> encode s = Inr (map of_nat s)"
  by (induction s) (auto simp: encode_cp_def)

lemma encode_Inl: "encode s = Inl e \<Longrightarrow> e = UnicodeEncodeError"
  by (induction s arbitrary: e) (auto simp: encode_cp_def split: sum.splits if_splits)

lemma str_nat_digits: "c \<in> set (str_nat n) \<Longrightarrow> 48 \<le> c \<and> c \<le> 57"
proof (induction n arbitrary: c rule: str_nat.induct)
  case (1 n)
  show ?case
  proof (cases "n < 10")
    case True
    with "1.prems" show ?thesis by (simp add: str_nat.simps [of n])
  next
    case False
    with "1.prems" have "c \<in> set (str_nat (n div 10)) \<or> c = 48 + n mod 10"
      by (auto simp: str_nat.simps [of n])
    then show ?thesis
    proof
      assume "c \<in> set (str_nat (n div 10))"
      with False "1.IH" show ?thesis by blast
    next
      assume "c = 48 + n mod 10"
      moreover have "n mod 10 < 10" by simp
      ultimately show ?thesis by linarith
    qed
  qed
qed

lemma str_int_ascii: "c \<in> set (str_int i) \<Longrightarrow> c < 128"
  by (auto simp: str_int_def dest: str_nat_digits split: if_splits)

lemma str_of_ascii_literal: "\<forall>c \<in> set s. of_char c < (128::nat) \<Longrightarrow> encode (str_of s) = Inr (bytes_of s)"
  by (simp add: encode_ascii str_of_def bytes_of_def of_nat_of_char)

lemma create_http_response_eq:
  "create_http_response code reason body =
     (case encode body of
        Inl e \<Rightarrow> Inl UnicodeEncodeError
      | Inr b \<Rightarrow>
          (case encode reason of
             Inl e \<Rightarrow> Inl UnicodeEncodeError
           | Inr t \<Rightarrow> Inr (spec_response code t b)))"
proof (cases "encode body")
  case (Inl e)
  then show ?thesis by (simp add: create_http_response_def encode_Inl)
next
  case (Inr b)
  have d: "encode (str_nat (length b)) = Inr (map of_nat (str_nat (length b)))"
    by (rule encode_ascii) (auto dest: str_nat_digits)
  have c: "encode (str_int code) = Inr (map of_nat (str_int code))"
    by (rule encode_ascii) (auto dest: str_int_ascii)
  show ?thesis
  proof (cases "encode reason")
    case (Inl e)
    with Inr c d show ?thesis
      by (auto simp: create_http_response_def encode_append str_of_ascii_literal encode_cp_def
          dest: encode_Inl)
  next
    case t: (Inr t)
    with Inr c d show ?thesis
      by (simp add: create_http_response_def encode_append str_of_ascii_literal encode_cp_def
          spec_response_def)
  qed
qed


lemma encode_below_surrogates: "\<forall>c \<in> set s. c < 0xD800 \<Longrightarrow> \<exists>b. encode s = Inr b"
  by (induction s) (auto simp: encode_cp_def)

lemma try_block_events: "x \<in> set (fst (try_block env)) \<Longrightarrow> x \<noteq> Close"
  by (auto simp: try_block_def split: sum.splits if_splits prod.splits)

lemma except_clauses_events:
  "x \<in> set (fst (except_clauses env tr e)) \<Longrightarrow> x \<in> set tr \<or> x \<noteq> Close"
  by (auto simp: except_clauses_def split: sum.splits if_splits)

lemma handle_client_trace:
  "\<exists>tr. fst (handle_client env) = tr @ [Close] \<and> Close \<notin> set tr"
proof (cases "try_block env")
  case (Pair tr r)
  have tr: "Close \<notin> set tr"
    using try_block_events [of Close env] Pair by auto
  show ?thesis
  proof (cases r)
    case None
    with Pair tr show ?thesis by (simp add: handle_client_def)
  next
    case (Some e)
    obtain tr' r' where ex: "except_clauses env tr e = (tr', r')"
      by (cases "except_clauses env tr e")
    have "Close \<notin> set tr'"
      using except_clauses_events [of Close env tr e] ex tr by auto
    with Pair Some ex show ?thesis by (simp add: handle_client_def)
  qed
qed

text \<open>
  C2. Whatever the socket, the decoder, the parser, the content handlers and the
  sends do, \<open>handle_client\<close> calls \<open>close\<close> on the client socket exactly once, as
  the last call it makes on the socket.
\<close>

theorem handle_client_closes_exactly_once:
  "length (filter (\<lambda>x. x = Close) (fst (handle_client env))) = 1
   \<and> last (fst (handle_client env)) = Close"
proof -
  obtain tr where tr: "fst (handle_client env) = tr @ [Close]" "Close \<notin> set tr"
    using handle_client_trace by blast
  from tr(2) have "filter (\<lambda>x. x = Close) tr = []"
    by (induction tr) auto
  with tr(1) show ?thesis by simp
qed

theorem handle_client_closes_exactly_once_witness:
  "length (filter (\<lambda>x. x = Close)
     (fst (handle_client ((plain_env (Inl OSError))
        \<lparr>sock_sendall := (\<lambda>n b. Some OSError), sock_close := Some OSError\<rparr>)))) = 1
   \<and> last (fst (handle_client ((plain_env (Inl OSError))
        \<lparr>sock_sendall := (\<lambda>n b. Some OSError), sock_close := Some OSError\<rparr>))) = Close"
  by (rule handle_client_closes_exactly_once)

text \<open>
  C8. When the one \<open>recv\<close> of a connection returns zero bytes, the handler sends
  nothing: the only call it makes on the socket is \<open>close\<close>.
\<close>

theorem zero_byte_read_sends_nothing:
  assumes "sock_recv env = Inr []"
  shows "fst (handle_client env) = [Close]"
  using assms by (simp add: handle_client_def try_block_def)

theorem zero_byte_read_sends_nothing_witness:
  "sock_recv (plain_env (Inr [])) = Inr []
   \<and> fst (handle_client (plain_env (Inr []))) = [Close]"
proof -
  have h: "sock_recv (plain_env (Inr [])) = Inr []"
    by (simp add: plain_env_def)
  from h zero_byte_read_sends_nothing [OF h] show ?thesis by simp
qed

text \<open>
  C7. When the bytes received are not valid UTF-8, the handler sends the 400 response,
  \<open>Bad Request\<close> with the fixed error body, and closes the socket; it makes no
  other call on the socket.
\<close>

theorem undecodable_request_gets_400:
  assumes "sock_recv env = Inr request_data"
    and "request_data \<noteq> []"
    and "decode request_data = Inl e"
  shows "\<exists>body. encode bad_request_body = Inr body
           \<and> fst (handle_client env)
               = [SendAll (spec_response 400 (bytes_of ''Bad Request'') body), Close]"
proof -
  from assms(3) have e: "e = UnicodeDecodeError"
    by (simp add: decode_def split: option.splits)
  have "\<forall>c \<in> set bad_request_body. c < 0xD800"
    by (simp add: bad_request_body_def str_of_def)
  then obtain body where body: "encode bad_request_body = Inr body"
    using encode_below_surrogates by blast
  have "create_http_response 400 (str_of ''Bad Request'') bad_request_body
          = Inr (spec_response 400 (bytes_of ''Bad Request'') body)"
    by (simp add: create_http_response_eq body str_of_ascii_literal)
  with assms e body show ?thesis
    by (simp add: handle_client_def try_block_def except_clauses_def)
qed

theorem undecodable_request_gets_400_witness:
  "sock_recv (plain_env (Inr [0xFF])) = Inr [0xFF]
   \<and> [0xFF] \<noteq> ([] :: bytes)
   \<and> decode [0xFF] = Inl UnicodeDecodeError
   \<and> (\<exists>body. encode bad_request_body = Inr body
         \<and> fst (handle_client (plain_env (Inr [0xFF])))
             = [SendAll (spec_response 400 (bytes_of ''Bad Request'') body), Close])"
proof -
  have h1: "sock_recv (plain_env (Inr [0xFF])) = Inr [0xFF]"
    by (simp add: plain_env_def)
  have h2: "[0xFF] \<noteq> ([] :: bytes)" by simp
  have h3: "decode [0xFF] = Inl UnicodeDecodeError"
    by (simp add: decode_def utf8_step_def)
  from h1 h2 h3 undecodable_request_gets_400 [OF h1 h2 h3] show ?thesis by simp
qed



lemmas eval_defs =
  str_of_def bytes_of_def split_ws_def isspace_def parse_http_request_def urlparse_def
  urlsplit_def Let_def splitnetloc_def partition_char_def checknetloc_def
  check_bracketed_host_def uses_params_def splitparams_def isalpha_ascii_def scheme_chars_def
  lower_ascii_def parse_qs_def parse_qsl_def parse_field_def unquote_plus_def unquote_def
  unquote_run_def unquote_to_bytes_def unquote_item_def decode_replace_def decode_def
  utf8_step_def is_cont_def ishex_def hexval_def encode_cp_def plain_lib_def plain_env_def


lemma parse_http_request_short:
  assumes "split_crlf request = request_line # rest"
    and "length (split_ws request_line) < 2"
  shows "parse_http_request tables request = Inr ([], [], [])"
proof (cases "split_ws request_line")
  case Nil
  with assms show ?thesis by (simp add: parse_http_request_def)
next
  case (Cons a as)
  with assms(2) have "as = []" by simp
  with Cons assms show ?thesis by (simp add: parse_http_request_def)
qed







text \<open>
  C3, as the code has it. When the status text and the body can be encoded in UTF-8
  (no surrogate code point), \<open>create_http_response\<close> returns exactly the response
  format of the specification, with the number of bytes of the encoded body as
  \<open>Content-Length\<close>. When one of them cannot be encoded it raises
  \<open>UnicodeEncodeError\<close>.
\<close>

theorem create_http_response_wire_format:
  "(encode status_text = Inr t \<and> encode body = Inr b
      \<longrightarrow> create_http_response status_code status_text body
            = Inr (spec_response status_code t b))
   \<and> ((\<exists>e. encode status_text = Inl e \<or> encode body = Inl e)
      \<longrightarrow> create_http_response status_code status_text body = Inl UnicodeEncodeError)"
  by (auto simp: create_http_response_eq split: sum.splits)

theorem create_http_response_wire_format_witness:
  "encode (str_of ''OK'') = Inr (bytes_of ''OK'')
   \<and> encode [1055, 1088] = Inr [0xD0, 0x9F, 0xD1, 0x80]
   \<and> create_http_response 200 (str_of ''OK'') [1055, 1088]
       = Inr (bytes_of ''HTTP/1.1 200 OK'' @ [13, 10]
              @ bytes_of ''Content-Type: text/html; charset=utf-8'' @ [13, 10]
              @ bytes_of ''Content-Length: 4'' @ [13, 10]
              @ bytes_of ''Connection: close'' @ [13, 10, 13, 10]
              @ [0xD0, 0x9F, 0xD1, 0x80])
   \<and> create_http_response 200 (str_of ''OK'') [0xD800] = Inl UnicodeEncodeError"
proof -
  have h1: "encode (str_of ''OK'') = Inr (bytes_of ''OK'')"
    by (simp add: eval_defs)
  have h2: "encode [1055, 1088] = Inr [0xD0, 0x9F, 0xD1, 0x80]"
    by (simp add: eval_defs)
  have h3: "encode [0xD800] = Inl UnicodeEncodeError"
    by (simp add: eval_defs)
  have s: "spec_response 200 (bytes_of ''OK'') [0xD0, 0x9F, 0xD1, 0x80]
       = bytes_of ''HTTP/1.1 200 OK'' @ [13, 10]
              @ bytes_of ''Content-Type: text/html; charset=utf-8'' @ [13, 10]
              @ bytes_of ''Content-Length: 4'' @ [13, 10]
              @ bytes_of ''Connection: close'' @ [13, 10, 13, 10]
              @ [0xD0, 0x9F, 0xD1, 0x80]"
    by (simp add: spec_response_def bytes_of_def str_int_def str_nat.simps)
  from h1 h2 h3 s
    create_http_response_wire_format [of "str_of ''OK''" "bytes_of ''OK''" "[1055, 1088]"
      "[0xD0, 0x9F, 0xD1, 0x80]" 200]
    create_http_response_wire_format [of "str_of ''OK''" "bytes_of ''OK''" "[0xD800]" "[]" 200]
  show ?thesis by auto
qed

text \<open>
  C3 as stated fails. A body of one surrogate code point, which a Python string can hold, cannot be
  encoded: the builder raises and returns no bytes.
\<close>

theorem create_http_response_every_body_counterexample:
  "create_http_response 200 (str_of ''OK'') [0xD800] = Inl UnicodeEncodeError"
  by (simp add: create_http_response_def eval_defs)

section \<open>Properties of the query parameters\<close>

lemma add_value_keys:
  "map fst (add_value d (n, v)) = (if n \<in> set (map fst d) then map fst d else map fst d @ [n])"
proof (induction d)
  case Nil
  then show ?case by simp
next
  case (Cons a d)
  obtain k vs where a: "a = (k, vs)" by (cases a)
  show ?case
  proof (cases "k = n")
    case True
    with a show ?thesis by simp
  next
    case False
    with a Cons.IH show ?thesis by (simp split: if_splits)
  qed
qed

lemma add_value_map_of:
  "map_of (add_value d (n, v)) =
     (map_of d)(n \<mapsto> (case map_of d n of None \<Rightarrow> [v] | Some vs \<Rightarrow> vs @ [v]))"
  by (induction d) (auto simp: fun_eq_iff)

lemma add_value_distinct: "distinct (map fst d) \<Longrightarrow> distinct (map fst (add_value d p))"
  by (cases p) (simp add: add_value_keys)

lemma add_value_nonempty:
  "\<forall>(k, vs) \<in> set d. vs \<noteq> [] \<Longrightarrow> \<forall>(k, vs) \<in> set (add_value d p). vs \<noteq> []"
  by (induction d p rule: add_value.induct) auto

lemma foldl_add_value_invariant:
  "distinct (map fst d) \<Longrightarrow> \<forall>(k, vs) \<in> set d. vs \<noteq> [] \<Longrightarrow>
   distinct (map fst (foldl add_value d ps)) \<and> (\<forall>(k, vs) \<in> set (foldl add_value d ps). vs \<noteq> [])"
proof (induction ps arbitrary: d)
  case Nil
  then show ?case by simp
next
  case (Cons p ps)
  from Cons.prems have "distinct (map fst (add_value d p))"
    by (simp add: add_value_distinct)
  moreover from Cons.prems have "\<forall>(k, vs) \<in> set (add_value d p). vs \<noteq> []"
    by (simp add: add_value_nonempty)
  ultimately show ?case using Cons.IH [of "add_value d p"] by simp
qed

lemma foldl_add_value_map_of:
  "map_of (foldl add_value d ps) k =
     (case map_of d k of
        None \<Rightarrow> (case map snd (filter (\<lambda>p. fst p = k) ps) of [] \<Rightarrow> None | v # vs \<Rightarrow> Some (v # vs))
      | Some ws \<Rightarrow> Some (ws @ map snd (filter (\<lambda>p. fst p = k) ps)))"
proof (induction ps arbitrary: d)
  case Nil
  then show ?case by (simp split: option.splits)
next
  case (Cons p ps)
  obtain n v where p: "p = (n, v)" by (cases p)
  show ?case
    by (simp add: Cons.IH p add_value_map_of split: option.splits list.splits)
qed

lemma parse_qs_invariant:
  "distinct (map fst (parse_qs qs)) \<and> (\<forall>(k, vs) \<in> set (parse_qs qs). vs \<noteq> [])"
  unfolding parse_qs_def by (rule foldl_add_value_invariant) simp_all

lemma parse_http_request_query:
  assumes "parse_http_request tables request = Inr (method, path, query)"
  shows "query = [] \<or> (\<exists>qs. query = parse_qs qs)"
  using assms
  by (auto simp: parse_http_request_def split: list.splits sum.splits)

text \<open>
  C9. The query parameters that the parser returns form a dictionary (no key twice)
  in which every key has at least one value: no key maps to the empty list.
\<close>

theorem query_values_never_empty:
  assumes "parse_http_request tables request = Inr (method, path, query)"
  shows "distinct (map fst query)
    \<and> (\<forall>(k, vs) \<in> set query. vs \<noteq> [])
    \<and> (\<forall>k. map_of query k \<noteq> Some [])"
proof -
  have a: "distinct (map fst query) \<and> (\<forall>(k, vs) \<in> set query. vs \<noteq> [])"
    using parse_http_request_query [OF assms] parse_qs_invariant by auto
  have "map_of query k \<noteq> Some []" for k
  proof
    assume "map_of query k = Some []"
    then have "(k, []) \<in> set query" by (rule map_of_SomeD)
    with a show False by auto
  qed
  with a show ?thesis by simp
qed

theorem query_values_never_empty_witness:
  "parse_http_request plain_lib (str_of ''GET /p?a=1&a=2&b='')
     = Inr (str_of ''GET'', str_of ''/p'', [(str_of ''a'', [str_of ''1'', str_of ''2''])])
   \<and> distinct (map fst [(str_of ''a'', [str_of ''1'', str_of ''2''])])
   \<and> list_all (\<lambda>(k, vs). vs \<noteq> []) [(str_of ''a'', [str_of ''1'', str_of ''2''])]
   \<and> (\<forall>k. map_of [(str_of ''a'', [str_of ''1'', str_of ''2''])] k \<noteq> Some [])"
proof -
  have h: "parse_http_request plain_lib (str_of ''GET /p?a=1&a=2&b='')
     = Inr (str_of ''GET'', str_of ''/p'', [(str_of ''a'', [str_of ''1'', str_of ''2''])])"
    by (simp add: eval_defs)
  from h query_values_never_empty [OF h] show ?thesis
    unfolding list_all_iff by blast
qed

lemma split_char_nonempty: "split_char sep s \<noteq> []"
  by (induction s) (auto split: list.splits)

lemma split_char_append:
  "split_char sep (a @ sep # b) = split_char sep a @ split_char sep b"
proof (induction a)
  case Nil
  then show ?case by simp
next
  case (Cons c a)
  obtain p ps where "split_char sep a = p # ps"
    using split_char_nonempty [of sep a] by (cases "split_char sep a") auto
  with Cons show ?case by simp
qed

lemma split_char_none: "sep \<notin> set s \<Longrightarrow> split_char sep s = [s]"
  by (induction s) auto

lemma parse_field_Nil: "parse_field [] = []"
  by (simp add: parse_field_def)

lemma parse_qsl_append: "parse_qsl (a @ 38 # b) = parse_qsl a @ parse_qsl b"
proof -
  have "parse_qsl s = concat (map parse_field (split_char 38 s))" for s
    by (cases s) (simp_all add: parse_qsl_def parse_field_Nil)
  then show ?thesis by (simp add: split_char_append)
qed

lemma takeWhile_until:
  "sep \<notin> set a \<Longrightarrow> takeWhile (\<lambda>c. c \<noteq> sep) (a @ sep # b) = a"
  by (induction a) auto

lemma dropWhile_until:
  "sep \<notin> set a \<Longrightarrow> dropWhile (\<lambda>c. c \<noteq> sep) (a @ sep # b) = sep # b"
  by (induction a) auto

lemma parse_qsl_field:
  assumes "38 \<notin> set name" "61 \<notin> set name" "38 \<notin> set val" "val \<noteq> []"
  shows "parse_qsl (name @ 61 # val) = [(unquote_plus name, unquote_plus val)]"
proof -
  have "split_char 38 (name @ 61 # val) = [name @ 61 # val]"
    using assms by (simp add: split_char_none)
  moreover have "takeWhile (\<lambda>c. c \<noteq> 61) (name @ 61 # val) = name"
    using assms(2) by (rule takeWhile_until)
  moreover have "dropWhile (\<lambda>c. c \<noteq> 61) (name @ 61 # val) = 61 # val"
    using assms(2) by (rule dropWhile_until)
  ultimately show ?thesis
    using assms(4) by (simp add: parse_qsl_def parse_field_def partition_char_def)
qed

lemma parse_qsl_blank:
  assumes "38 \<notin> set field" "61 \<notin> set field \<or> (\<exists>name. field = name @ [61] \<and> 61 \<notin> set name)"
  shows "parse_qsl field = []"
proof (cases "field = []")
  case True
  then show ?thesis by (simp add: parse_qsl_def)
next
  case False
  have s: "split_char 38 field = [field]"
    using assms(1) by (simp add: split_char_none)
  from assms(2) have "drop 1 (dropWhile (\<lambda>c. c \<noteq> 61) field) = []"
  proof
    assume "61 \<notin> set field"
    then have "\<forall>c \<in> set field. c \<noteq> 61" by auto
    then have "dropWhile (\<lambda>c. c \<noteq> 61) field = []" by (simp only: dropWhile_eq_Nil_conv)
    then show ?thesis by (simp only: drop_Nil)
  next
    assume "\<exists>name. field = name @ [61] \<and> 61 \<notin> set name"
    then obtain name where "field = name @ [61]" "61 \<notin> set name" by blast
    then show ?thesis by (simp add: dropWhile_until)
  qed
  with False s show ?thesis
    by (simp add: parse_qsl_def parse_field_def partition_char_def)
qed

lemma parse_qs_map_of:
  "map_of (parse_qs qs) k =
     (case map snd (filter (\<lambda>p. fst p = k) (parse_qsl qs)) of
        [] \<Rightarrow> None
      | v # vs \<Rightarrow> Some (v # vs))"
  by (simp add: parse_qs_def foldl_add_value_map_of)


subsection \<open>The UTF-8 decoder against the encoder\<close>

lemma unat_byte: "n < 256 \<Longrightarrow> unat (of_nat n :: byte) = n"
  by (simp add: unat_of_nat)

lemma digits3:
  fixes c :: nat
  shows "c = c div 4096 * 4096 + c div 64 mod 64 * 64 + c mod 64"
proof -
  define q r s t where "q = c div 64" and "r = q div 64" and "s = q mod 64" and "t = c mod 64"
  have a: "c = q * 64 + t" by (simp add: q_def t_def)
  have b: "q = r * 64 + s" by (simp add: r_def s_def)
  have r': "r = c div 4096" by (simp add: r_def q_def div_mult2_eq)
  have s': "s = c div 64 mod 64" by (simp only: s_def q_def)
  from a b have "c = r * 4096 + s * 64 + t" by linarith
  then show ?thesis unfolding r' s' t_def .
qed

lemma digits4:
  fixes c :: nat
  shows "c = c div 262144 * 262144 + c div 4096 mod 64 * 4096 + c div 64 mod 64 * 64 + c mod 64"
proof -
  define q where "q = c div 64"
  have a: "c = q * 64 + c mod 64" by (simp add: q_def)
  have b: "q = q div 4096 * 4096 + q div 64 mod 64 * 64 + q mod 64" by (rule digits3)
  have c1: "q div 4096 = c div 262144" by (simp add: q_def div_mult2_eq)
  have c2: "q div 64 = c div 4096" by (simp add: q_def div_mult2_eq)
  define r s t u where "r = c div 262144" and "s = c div 4096 mod 64" and "t = q mod 64"
    and "u = c mod 64"
  from b have b': "q = r * 4096 + s * 64 + t" by (simp only: c1 c2 r_def s_def t_def)
  from a have a': "c = q * 64 + u" by (simp only: u_def)
  from a' b' have "c = r * 262144 + s * 4096 + t * 64 + u" by linarith
  then show ?thesis by (simp only: r_def s_def t_def u_def q_def)
qed


lemma div_digit: "r < n \<Longrightarrow> (x * n + r) div n = (x::nat)"
  by simp

lemma mod_digit: "r < n \<Longrightarrow> (x * n + r) mod n = (r::nat)"
  by simp

lemma lead_mod: "x < n \<Longrightarrow> (k * n + x) mod n = (x::nat)"
  by simp

lemma encode_cp_2:
  assumes "2 \<le> x" "x < 32" "y < 64"
  shows "encode_cp (x * 64 + y) = Inr [of_nat (192 + x), of_nat (128 + y)]"
proof -
  define c where "c = x * 64 + y"
  have d: "c div 64 = x" "c mod 64 = y"
    unfolding c_def using assms(3) by (rule div_digit, rule mod_digit)
  have r: "\<not> c < 128" "c < 2048" unfolding c_def using assms by linarith+
  show ?thesis
    unfolding c_def [symmetric] encode_cp_def using r by (simp add: d)
qed

lemma encode_cp_3:
  assumes "x < 16" "y < 64" "z < 64" "x = 0 \<longrightarrow> 32 \<le> y" "x = 13 \<longrightarrow> y < 32"
  shows "encode_cp (x * 4096 + y * 64 + z)
           = Inr [of_nat (224 + x), of_nat (128 + y), of_nat (128 + z)]"
proof -
  define c where "c = x * 4096 + y * 64 + z"
  have c64: "c = (x * 64 + y) * 64 + z" unfolding c_def by (simp add: add_mult_distrib)
  have "y * 64 + z < 4096" using assms(2,3) by linarith
  then have d1: "c div 4096 = x"
    unfolding c_def add.assoc by (rule div_digit)
  have "c div 64 = x * 64 + y" unfolding c64 using assms(3) by (rule div_digit)
  then have d2: "c div 64 mod 64 = y" using assms(2) by (simp only: mod_digit)
  have d3: "c mod 64 = z" unfolding c64 using assms(3) by (rule mod_digit)
  have "x = 0 \<or> (1 \<le> x \<and> x \<le> 12) \<or> x = 13 \<or> x = 14 \<or> x = 15" using assms(1) by linarith
  then have r: "\<not> c < 128" "\<not> c < 2048" "\<not> (55296 \<le> c \<and> c \<le> 57343)" "c < 65536"
    unfolding c_def using assms by auto
  show ?thesis
    unfolding c_def [symmetric] encode_cp_def using r by (simp add: d1 d2 d3)
qed

lemma encode_cp_4:
  assumes "x < 5" "y < 64" "z < 64" "w < 64" "x = 0 \<longrightarrow> 16 \<le> y" "x = 4 \<longrightarrow> y < 16"
  shows "encode_cp (x * 262144 + y * 4096 + z * 64 + w)
           = Inr [of_nat (240 + x), of_nat (128 + y), of_nat (128 + z), of_nat (128 + w)]"
proof -
  define c where "c = x * 262144 + y * 4096 + z * 64 + w"
  have c64: "c = (x * 4096 + y * 64 + z) * 64 + w" unfolding c_def by (simp add: add_mult_distrib)
  have c4096: "c = (x * 64 + y) * 4096 + (z * 64 + w)" unfolding c_def by (simp add: add_mult_distrib)
  have c262144: "c = x * 262144 + (y * 4096 + z * 64 + w)" unfolding c_def by (simp add: add_mult_distrib)
  have "y * 4096 + z * 64 + w < 262144" using assms(2,3,4) by linarith
  then have d1: "c div 262144 = x" unfolding c262144 by (rule div_digit)
  have "z * 64 + w < 4096" using assms(3,4) by linarith
  then have "c div 4096 = x * 64 + y" unfolding c4096 by (rule div_digit)
  then have d2: "c div 4096 mod 64 = y" using assms(2) by (simp only: mod_digit)
  have "c div 64 = x * 4096 + y * 64 + z" unfolding c64 using assms(4) by (rule div_digit)
  then have "c div 64 = (x * 64 + y) * 64 + z" by (simp add: add_mult_distrib)
  then have d3: "c div 64 mod 64 = z" using assms(3) by (simp only: mod_digit)
  have d4: "c mod 64 = w" unfolding c64 using assms(4) by (rule mod_digit)
  have "x = 0 \<or> x = 1 \<or> x = 2 \<or> x = 3 \<or> x = 4" using assms(1) by linarith
  then have r: "\<not> c < 128" "\<not> c < 2048" "\<not> (55296 \<le> c \<and> c \<le> 57343)" "\<not> c < 65536"
    "c < 1114112"
    unfolding c_def using assms by auto
  show ?thesis
    unfolding c_def [symmetric] encode_cp_def using r by (simp add: d1 d2 d3 d4)
qed


lemma utf8_step_1: "c < 128 \<Longrightarrow> utf8_step (of_nat c) rest = Decoded c 1"
  by (simp add: utf8_step_def unat_byte)

lemma utf8_step_2:
  assumes "2 \<le> x" "x < 32" "y < 64"
  shows "utf8_step (of_nat (192 + x)) (of_nat (128 + y) # rest) = Decoded (x * 64 + y) 2"
proof -
  have u1: "unat (192 + of_nat x :: byte) = 192 + x" using assms(2) unat_byte [of "192 + x"] by simp
  have u2: "unat (128 + of_nat y :: byte) = 128 + y" using assms(3) unat_byte [of "128 + y"] by simp
  have m1: "(192 + x) mod 32 = x" using lead_mod [of x 32 6] assms(2) by simp
  have m2: "(128 + y) mod 64 = y" using lead_mod [of y 64 2] assms(3) by simp
  show ?thesis
    using assms by (simp add: utf8_step_def Let_def is_cont_def u1 u2 m1 m2)
qed


lemma utf8_step_3:
  assumes "x < 16" "y < 64" "z < 64" "x = 0 \<longrightarrow> 32 \<le> y" "x = 13 \<longrightarrow> y < 32"
  shows "utf8_step (of_nat (224 + x)) (of_nat (128 + y) # of_nat (128 + z) # rest)
           = Decoded (x * 4096 + y * 64 + z) 3"
proof -
  have u1: "unat (224 + of_nat x :: byte) = 224 + x" using assms(1) unat_byte [of "224 + x"] by simp
  have u2: "unat (128 + of_nat y :: byte) = 128 + y" using assms(2) unat_byte [of "128 + y"] by simp
  have u3: "unat (128 + of_nat z :: byte) = 128 + z" using assms(3) unat_byte [of "128 + z"] by simp
  have m1: "(224 + x) mod 16 = x" using lead_mod [of x 16 14] assms(1) by simp
  have m2: "(128 + y) mod 64 = y" using lead_mod [of y 64 2] assms(2) by simp
  have m3: "(128 + z) mod 64 = z" using lead_mod [of z 64 2] assms(3) by simp
  show ?thesis
    using assms by (auto simp: utf8_step_def Let_def is_cont_def u1 u2 u3 m1 m2 m3)
qed

lemma utf8_step_4:
  assumes "x < 5" "y < 64" "z < 64" "w < 64" "x = 0 \<longrightarrow> 16 \<le> y" "x = 4 \<longrightarrow> y < 16"
  shows "utf8_step (of_nat (240 + x))
             (of_nat (128 + y) # of_nat (128 + z) # of_nat (128 + w) # rest)
           = Decoded (x * 262144 + y * 4096 + z * 64 + w) 4"
proof -
  have u1: "unat (240 + of_nat x :: byte) = 240 + x" using assms(1) unat_byte [of "240 + x"] by simp
  have u2: "unat (128 + of_nat y :: byte) = 128 + y" using assms(2) unat_byte [of "128 + y"] by simp
  have u3: "unat (128 + of_nat z :: byte) = 128 + z" using assms(3) unat_byte [of "128 + z"] by simp
  have u4: "unat (128 + of_nat w :: byte) = 128 + w" using assms(4) unat_byte [of "128 + w"] by simp
  have m1: "(240 + x) mod 8 = x" using lead_mod [of x 8 30] assms(1) by simp
  have m2: "(128 + y) mod 64 = y" using lead_mod [of y 64 2] assms(2) by simp
  have m3: "(128 + z) mod 64 = z" using lead_mod [of z 64 2] assms(3) by simp
  have m4: "(128 + w) mod 64 = w" using lead_mod [of w 64 2] assms(4) by simp
  show ?thesis
    using assms by (auto simp: utf8_step_def Let_def is_cont_def u1 u2 u3 u4 m1 m2 m3 m4)
qed


lemma utf8_step_encode_cp:
  assumes "encode_cp c = Inr bs"
  shows "\<exists>b bs'. bs = b # bs' \<and> utf8_step b (bs' @ rest) = Decoded c (length bs)"
proof -
  consider (one) "c < 128" | (two) "128 \<le> c" "c < 2048" | (three) "2048 \<le> c" "c < 55296"
    | (three') "57343 < c" "c < 65536" | (four) "65536 \<le> c" "c < 1114112"
    using assms by (fastforce simp: encode_cp_def split: if_splits)
  then show ?thesis
  proof cases
    case one
    with assms have "bs = [of_nat c]" by (simp add: encode_cp_def)
    with one show ?thesis by (simp add: utf8_step_1)
  next
    case two
    define x y where "x = c div 64" and "y = c mod 64"
    have c: "c = x * 64 + y" by (simp add: x_def y_def)
    have y: "y < 64" by (simp add: y_def)
    from two c y have x: "2 \<le> x" "x < 32" by linarith+
    from assms have "bs = [of_nat (192 + x), of_nat (128 + y)]"
      unfolding c using encode_cp_2 [OF x y] by simp
    then show ?thesis
      unfolding c using utf8_step_2 [OF x y, of rest] by simp
  next
    case three
    define x y z where "x = c div 4096" and "y = c div 64 mod 64" and "z = c mod 64"
    have c: "c = x * 4096 + y * 64 + z" unfolding x_def y_def z_def by (rule digits3)
    have yz: "y < 64" "z < 64" by (simp_all add: y_def z_def)
    from three c yz have x: "x < 16" "x = 0 \<longrightarrow> 32 \<le> y" "x = 13 \<longrightarrow> y < 32" by linarith+
    from assms have "bs = [of_nat (224 + x), of_nat (128 + y), of_nat (128 + z)]"
      unfolding c using encode_cp_3 [OF x(1) yz x(2,3)] by simp
    then show ?thesis
      unfolding c using utf8_step_3 [OF x(1) yz x(2,3), of rest] by simp
  next
    case three'
    define x y z where "x = c div 4096" and "y = c div 64 mod 64" and "z = c mod 64"
    have c: "c = x * 4096 + y * 64 + z" unfolding x_def y_def z_def by (rule digits3)
    have yz: "y < 64" "z < 64" by (simp_all add: y_def z_def)
    from three' c yz have x: "x < 16" "x = 0 \<longrightarrow> 32 \<le> y" "x = 13 \<longrightarrow> y < 32" by linarith+
    from assms have "bs = [of_nat (224 + x), of_nat (128 + y), of_nat (128 + z)]"
      unfolding c using encode_cp_3 [OF x(1) yz x(2,3)] by simp
    then show ?thesis
      unfolding c using utf8_step_3 [OF x(1) yz x(2,3), of rest] by simp
  next
    case four
    define x y z w where "x = c div 262144" and "y = c div 4096 mod 64"
      and "z = c div 64 mod 64" and "w = c mod 64"
    have c: "c = x * 262144 + y * 4096 + z * 64 + w"
      unfolding x_def y_def z_def w_def by (rule digits4)
    have yzw: "y < 64" "z < 64" "w < 64" by (simp_all add: y_def z_def w_def)
    from four c yzw have x: "x < 5" "x = 0 \<longrightarrow> 16 \<le> y" "x = 4 \<longrightarrow> y < 16" by linarith+
    from assms have "bs = [of_nat (240 + x), of_nat (128 + y), of_nat (128 + z), of_nat (128 + w)]"
      unfolding c using encode_cp_4 [OF x(1) yzw x(2,3)] by simp
    then show ?thesis
      unfolding c using utf8_step_4 [OF x(1) yzw x(2,3), of rest] by simp
  qed
qed


lemma byte_of_unat: "k \<le> unat b \<Longrightarrow> b = of_nat (k + (unat b - k))" for b :: byte
  by simp

lemma utf8_step_Decoded:
  assumes "utf8_step b bs = Decoded c n"
  shows "encode_cp c = Inr (take n (b # bs)) \<and> 0 < n \<and> n \<le> Suc (length bs)"
proof -
  define X where "X = unat b"
  have X: "unat b = X" by (simp add: X_def)
  consider (one) "X < 128" | (bad) "128 \<le> X" "X < 194" | (two) "194 \<le> X" "X < 224"
    | (three) "224 \<le> X" "X < 240" | (four) "240 \<le> X" "X < 245" | (bad') "245 \<le> X"
    by linarith
  then show ?thesis
  proof cases
    case one
    have "b = of_nat X" by (simp add: X_def)
    with one assms have "c = X" "n = 1" by (simp_all add: utf8_step_1)
    with one \<open>b = of_nat X\<close> show ?thesis by (simp add: encode_cp_def)
  next
    case bad
    with assms show ?thesis by (simp add: utf8_step_def X)
  next
    case bad'
    with assms show ?thesis by (simp add: utf8_step_def X)
  next
    case two
    from assms two obtain b2 r where bs: "bs = b2 # r" and c2: "128 \<le> unat b2" "unat b2 < 192"
      by (auto simp: utf8_step_def X Let_def is_cont_def split: list.splits if_splits)
    define x y where "x = X - 192" and "y = unat b2 - 128"
    from two c2 have d: "2 \<le> x" "x < 32" "y < 64" unfolding x_def y_def by linarith+
    have b: "b = of_nat (192 + x)" unfolding x_def X_def using two X by (intro byte_of_unat) simp
    have b2: "b2 = of_nat (128 + y)" unfolding y_def using c2 by (intro byte_of_unat)
    from assms have "Decoded (x * 64 + y) 2 = Decoded c n"
      unfolding bs b b2 utf8_step_2 [OF d] .
    then have "c = x * 64 + y" "n = 2" by simp_all
    then show ?thesis
      unfolding bs b b2 using encode_cp_2 [OF d] by simp
  next
    case three
    from assms three obtain b2 b3 r where bs: "bs = b2 # b3 # r"
      and c2: "128 \<le> unat b2" "unat b2 < 192" "X = 224 \<longrightarrow> 160 \<le> unat b2"
        "X = 237 \<longrightarrow> unat b2 < 160"
      and c3: "128 \<le> unat b3" "unat b3 < 192"
      by (auto simp: utf8_step_def X Let_def is_cont_def split: list.splits if_splits)
    define x y z where "x = X - 224" and "y = unat b2 - 128" and "z = unat b3 - 128"
    from three c2 c3 have d: "x < 16" "y < 64" "z < 64" "x = 0 \<longrightarrow> 32 \<le> y" "x = 13 \<longrightarrow> y < 32"
      unfolding x_def y_def z_def by linarith+
    have b: "b = of_nat (224 + x)" unfolding x_def X_def using three X by (intro byte_of_unat) simp
    have b2: "b2 = of_nat (128 + y)" unfolding y_def using c2 by (intro byte_of_unat)
    have b3: "b3 = of_nat (128 + z)" unfolding z_def using c3 by (intro byte_of_unat)
    from assms have "Decoded (x * 4096 + y * 64 + z) 3 = Decoded c n"
      unfolding bs b b2 b3 utf8_step_3 [OF d] .
    then have "c = x * 4096 + y * 64 + z" "n = 3" by simp_all
    then show ?thesis
      unfolding bs b b2 b3 using encode_cp_3 [OF d] by simp
  next
    case four
    from assms four obtain b2 b3 b4 r where bs: "bs = b2 # b3 # b4 # r"
      and c2: "128 \<le> unat b2" "unat b2 < 192" "X = 240 \<longrightarrow> 144 \<le> unat b2"
        "X = 244 \<longrightarrow> unat b2 < 144"
      and c3: "128 \<le> unat b3" "unat b3 < 192"
      and c4: "128 \<le> unat b4" "unat b4 < 192"
      by (auto simp: utf8_step_def X Let_def is_cont_def split: list.splits if_splits)
    define x y z w where "x = X - 240" and "y = unat b2 - 128" and "z = unat b3 - 128"
      and "w = unat b4 - 128"
    from four c2 c3 c4 have d: "x < 5" "y < 64" "z < 64" "w < 64" "x = 0 \<longrightarrow> 16 \<le> y"
      "x = 4 \<longrightarrow> y < 16"
      unfolding x_def y_def z_def w_def by linarith+
    have b: "b = of_nat (240 + x)" unfolding x_def X_def using four X by (intro byte_of_unat) simp
    have b2: "b2 = of_nat (128 + y)" unfolding y_def using c2 by (intro byte_of_unat)
    have b3: "b3 = of_nat (128 + z)" unfolding z_def using c3 by (intro byte_of_unat)
    have b4: "b4 = of_nat (128 + w)" unfolding w_def using c4 by (intro byte_of_unat)
    from assms have "Decoded (x * 262144 + y * 4096 + z * 64 + w) 4 = Decoded c n"
      unfolding bs b b2 b3 b4 utf8_step_4 [OF d] .
    then have "c = x * 262144 + y * 4096 + z * 64 + w" "n = 4" by simp_all
    then show ?thesis
      unfolding bs b b2 b3 b4 using encode_cp_4 [OF d] by simp
  qed
qed


lemma utf8_scan_encode:
  "encode s = Inr bs \<Longrightarrow> utf8_scan (bs @ rest) = map Some s @ utf8_scan rest"
proof (induction s arbitrary: bs)
  case Nil
  then show ?case by simp
next
  case (Cons c s)
  from Cons.prems obtain cb sb where cb: "encode_cp c = Inr cb" and sb: "encode s = Inr sb"
    and bs: "bs = cb @ sb"
    by (auto split: sum.splits)
  from utf8_step_encode_cp [OF cb, of "sb @ rest"] obtain b bs'
    where b: "cb = b # bs'" and st: "utf8_step b (bs' @ sb @ rest) = Decoded c (length cb)"
    by blast
  have "utf8_scan (bs @ rest) = Some c # utf8_scan (sb @ rest)"
    unfolding bs b using st b by simp
  with Cons.IH [OF sb] show ?case by simp
qed

lemma utf8_scan_those: "those (utf8_scan bs) = Some s \<Longrightarrow> encode s = Inr bs"
proof (induction bs arbitrary: s rule: utf8_scan.induct)
  case 1
  then show ?case by simp
next
  case (2 b bs)
  show ?case
  proof (cases "utf8_step b bs")
    case (Invalid n)
    with "2.prems" show ?thesis by simp
  next
    case (Decoded c n)
    with "2.prems" obtain s' where s: "s = c # s'"
      and t: "those (utf8_scan (drop n (b # bs))) = Some s'"
      by (auto split: option.splits)
    from utf8_step_Decoded [OF Decoded]
    have e: "encode_cp c = Inr (take n (b # bs))" by simp
    from "2.IH"(1) [OF Decoded t] have "encode s' = Inr (drop n (b # bs))" .
    with e show ?thesis unfolding s by simp
  qed
qed

lemma those_None: "those xs = None \<longleftrightarrow> None \<in> set xs"
  by (induction xs) (auto split: option.splits)

lemma decode_iff_encode: "decode bs = Inr s \<longleftrightarrow> encode s = Inr bs"
proof
  assume "decode bs = Inr s"
  then have "those (utf8_scan bs) = Some s"
    by (simp add: decode_def split: option.splits)
  then show "encode s = Inr bs" by (rule utf8_scan_those)
next
  assume "encode s = Inr bs"
  then have "utf8_scan bs = map Some s"
    using utf8_scan_encode [of s bs "[]"] by simp
  moreover have "those (map Some s) = Some s" by (induction s) simp_all
  ultimately show "decode bs = Inr s" by (simp add: decode_def)
qed

lemma decode_replace_valid: "encode s = Inr bs \<Longrightarrow> decode_replace bs = s"
proof -
  assume "encode s = Inr bs"
  then have "utf8_scan bs = map Some s"
    using utf8_scan_encode [of s bs "[]"] by simp
  then show ?thesis by (simp add: decode_replace_def comp_def)
qed

lemma decode_replace_malformed:
  assumes "\<nexists>s. encode s = Inr bs"
  shows "0xFFFD \<in> set (decode_replace bs)"
proof -
  have "those (utf8_scan bs) = None"
  proof (cases "those (utf8_scan bs)")
    case (Some s)
    then have "encode s = Inr bs" by (rule utf8_scan_those)
    with assms show ?thesis by blast
  qed simp
  then have "None \<in> set (utf8_scan bs)" by (simp add: those_None)
  then show ?thesis by (force simp: decode_replace_def)
qed

subsection \<open>Percent-decoding against the specification\<close>

lemma split_char_first_prefix: "split_char sep cs = p # ps \<Longrightarrow> take (length p) cs = p"
proof (induction cs arbitrary: p ps)
  case Nil
  then show ?case by simp
next
  case (Cons c cs)
  obtain q qs where q: "split_char sep cs = q # qs"
    using split_char_nonempty [of sep cs] by (cases "split_char sep cs") auto
  show ?case
  proof (cases "c = sep")
    case True
    with Cons.prems show ?thesis by simp
  next
    case False
    with Cons.prems q have "p = c # q" by simp
    with Cons.IH [OF q] show ?thesis by simp
  qed
qed

lemma not_hex_percent: "\<not> ishex 37"
  by (simp add: ishex_def)

lemma unquote_to_bytes_Nil: "unquote_to_bytes [] = []"
  by (simp add: unquote_to_bytes_def)

lemma unquote_to_bytes_plain: "c \<noteq> 0x25 \<Longrightarrow> unquote_to_bytes (c # cs) = c # unquote_to_bytes cs"
proof -
  assume c: "c \<noteq> 0x25"
  obtain q qs where q: "split_char 0x25 cs = q # qs"
    using split_char_nonempty [of "0x25" cs] by (cases "split_char 0x25 cs") auto
  with c show ?thesis by (simp add: unquote_to_bytes_def)
qed

lemma unquote_to_bytes_escape:
  assumes "ishex (unat a)" "ishex (unat b)"
  shows "unquote_to_bytes (0x25 # a # b # cs)
           = of_nat (hexval (unat a) * 16 + hexval (unat b)) # unquote_to_bytes cs"
proof -
  have "a \<noteq> 0x25" "b \<noteq> 0x25" using assms not_hex_percent by auto
  moreover obtain q qs where q: "split_char 0x25 cs = q # qs"
    using split_char_nonempty [of "0x25" cs] by (cases "split_char 0x25 cs") auto
  ultimately show ?thesis
    using assms by (simp add: unquote_to_bytes_def unquote_item_def)
qed

lemma unquote_to_bytes_percent:
  assumes "\<not> (\<exists>a b r. cs = a # b # r \<and> ishex (unat a) \<and> ishex (unat b))"
  shows "unquote_to_bytes (0x25 # cs) = 0x25 # unquote_to_bytes cs"
proof -
  obtain q qs where q: "split_char 0x25 cs = q # qs"
    using split_char_nonempty [of "0x25" cs] by (cases "split_char 0x25 cs") auto
  then have p: "take (length q) cs = q" by (rule split_char_first_prefix)
  have "unquote_item q = 0x25 # q"
  proof (cases q)
    case Nil
    then show ?thesis by (simp add: unquote_item_def)
  next
    case (Cons a q')
    show ?thesis
    proof (cases q')
      case Nil
      with Cons show ?thesis by (simp add: unquote_item_def)
    next
      case (Cons b q'')
      with \<open>q = a # q'\<close> p have "\<exists>r. cs = a # b # r"
        by (cases cs; cases "tl cs") auto
      with assms have "\<not> (ishex (unat a) \<and> ishex (unat b))" by blast
      with Cons \<open>q = a # q'\<close> show ?thesis by (simp add: unquote_item_def)
    qed
  qed
  with q show ?thesis by (simp add: unquote_to_bytes_def)
qed

lemma hex_agrees: "ishex c = spec_is_hex c" "ishex c \<Longrightarrow> hexval c = spec_hex_value c"
  by (auto simp: ishex_def spec_is_hex_def hexval_def spec_hex_value_def)

lemma byte_percent: "c < 128 \<Longrightarrow> (of_nat c :: byte) = 0x25 \<longleftrightarrow> c = 37"
proof
  assume c: "c < 128" and e: "(of_nat c :: byte) = 0x25"
  from c have "unat (of_nat c :: byte) = c" by (simp add: unat_byte)
  with e show "c = 37" by simp
next
  assume "c = 37"
  then show "(of_nat c :: byte) = 0x25" by simp
qed

lemma unquote_to_bytes_spec:
  "\<forall>c \<in> set run. c < 128 \<Longrightarrow> unquote_to_bytes (map of_nat run) = spec_percent_decode run"
proof (induction run rule: spec_percent_decode.induct)
  case (1 c a b rest)
  from "1.prems" have lt: "c < 128" "a < 128" "b < 128" "\<forall>c \<in> set rest. c < 128" by simp_all
  then have u: "unat (of_nat a :: byte) = a" "unat (of_nat b :: byte) = b"
    "unat (of_nat c :: byte) = c"
    by (simp_all add: unat_byte)
  have c37: "(of_nat c :: byte) = 0x25 \<longleftrightarrow> c = 37"
    using lt(1) by (rule byte_percent)
  show ?case
  proof (cases "c = 37 \<and> spec_is_hex a \<and> spec_is_hex b")
    case True
    then have h: "ishex (unat (of_nat a :: byte))" "ishex (unat (of_nat b :: byte))"
      by (simp_all add: u hex_agrees)
    from True have v: "hexval a * 16 + hexval b = 16 * spec_hex_value a + spec_hex_value b"
      by (simp add: hex_agrees)
    from True have "unquote_to_bytes (map of_nat (c # a # b # rest))
        = of_nat (hexval a * 16 + hexval b) # unquote_to_bytes (map of_nat rest)"
      using unquote_to_bytes_escape [OF h, of "map of_nat rest"] by (simp add: u)
    moreover have "spec_percent_decode (c # a # b # rest)
        = of_nat (16 * spec_hex_value a + spec_hex_value b) # spec_percent_decode rest"
      using True by simp
    moreover have "unquote_to_bytes (map of_nat rest) = spec_percent_decode rest"
      using "1.IH"(1) [OF True lt(4)] .
    ultimately show ?thesis using v by (simp only:)
  next
    case False
    have "unquote_to_bytes (map of_nat (c # a # b # rest))
        = of_nat c # unquote_to_bytes (map of_nat (a # b # rest))"
    proof (cases "c = 37")
      case True
      with False have "\<not> (ishex (unat (of_nat a :: byte)) \<and> ishex (unat (of_nat b :: byte)))"
        by (simp add: u hex_agrees)
      then have "unquote_to_bytes (0x25 # map of_nat (a # b # rest))
          = 0x25 # unquote_to_bytes (map of_nat (a # b # rest))"
        by (intro unquote_to_bytes_percent) auto
      with True show ?thesis by simp
    next
      case c: False
      then have "(of_nat c :: byte) \<noteq> 0x25" by (simp add: c37)
      then show ?thesis by (simp add: unquote_to_bytes_plain)
    qed
    moreover have "spec_percent_decode (c # a # b # rest)
        = of_nat c # spec_percent_decode (a # b # rest)"
      using False by auto
    moreover have "unquote_to_bytes (map of_nat (a # b # rest)) = spec_percent_decode (a # b # rest)"
      using "1.IH"(2) [OF False] lt by simp
    ultimately show ?thesis by (simp only:)
  qed
next
  fix c :: nat
  assume "\<forall>x \<in> set [c]. x < 128"
  then have "c < 128" by simp
  show "unquote_to_bytes (map of_nat [c]) = spec_percent_decode [c]"
  proof (cases "c = 37")
    case True
    have "unquote_to_bytes (0x25 # []) = 0x25 # unquote_to_bytes []"
      by (intro unquote_to_bytes_percent) simp
    with True show ?thesis by (simp add: unquote_to_bytes_Nil)
  next
    case False
    with \<open>c < 128\<close> have "(of_nat c :: byte) \<noteq> 0x25"
      by (simp add: byte_percent)
    then show ?thesis by (simp add: unquote_to_bytes_plain unquote_to_bytes_Nil)
  qed
next
  fix c v :: nat
  assume IH: "\<forall>x \<in> set [v]. x < 128 \<Longrightarrow>
      unquote_to_bytes (map of_nat [v]) = spec_percent_decode [v]"
    and "\<forall>x \<in> set [c, v]. x < 128"
  then have lt: "c < 128" "v < 128" by simp_all
  have "unquote_to_bytes (map of_nat [c, v]) = of_nat c # unquote_to_bytes (map of_nat [v])"
  proof (cases "c = 37")
    case True
    have "unquote_to_bytes (0x25 # map of_nat [v]) = 0x25 # unquote_to_bytes (map of_nat [v])"
      by (intro unquote_to_bytes_percent) simp
    with True show ?thesis by simp
  next
    case False
    with lt have "(of_nat c :: byte) \<noteq> 0x25"
      by (simp add: byte_percent)
    then show ?thesis by (simp add: unquote_to_bytes_plain)
  qed
  with IH lt show "unquote_to_bytes (map of_nat [c, v]) = spec_percent_decode [c, v]" by simp
next
  show "unquote_to_bytes (map of_nat []) = spec_percent_decode []"
    by (simp add: unquote_to_bytes_Nil)
qed


lemma unquote_run_spec: "\<forall>c \<in> set run. c < 128 \<Longrightarrow> unquote_run run = spec_decode_run run"
  by (simp add: unquote_run_def spec_decode_run_def unquote_to_bytes_spec)

lemma unquote_from_spec:
  "\<forall>c \<in> set run. c < 128 \<Longrightarrow>
   unquote_from run (map (\<lambda>c. if c = 43 then 32 else c) s) = spec_form_decode_from run s"
proof (induction s arbitrary: run)
  case Nil
  then show ?case by (simp add: unquote_run_spec)
next
  case (Cons c s)
  show ?case
  proof (cases "c = 43")
    case True
    from Cons.prems have "\<forall>c \<in> set (run @ [32]). c < 128" by simp
    from Cons.IH [OF this] True show ?thesis by simp
  next
    case False
    show ?thesis
    proof (cases "c < 128")
      case True
      with Cons.prems have "\<forall>c \<in> set (run @ [c]). c < 128" by simp
      from Cons.IH [OF this] True False show ?thesis by simp
    next
      case ge: False
      have "\<forall>c \<in> set ([] :: str). c < 128" by simp
      from Cons.IH [OF this] ge False Cons.prems show ?thesis
        by (simp add: unquote_run_spec)
    qed
  qed
qed

lemma spec_percent_decode_plain:
  "37 \<notin> set run \<Longrightarrow> spec_percent_decode run = map of_nat run"
  by (induction run rule: spec_percent_decode.induct) auto

lemma spec_decode_run_plain:
  assumes "\<forall>c \<in> set run. c < 128" and "37 \<notin> set run"
  shows "spec_decode_run run = run"
proof -
  have "encode run = Inr (map of_nat run)" using assms(1) by (rule encode_ascii)
  then have "decode_replace (map of_nat run) = run" by (rule decode_replace_valid)
  with assms(2) show ?thesis by (simp add: spec_decode_run_def spec_percent_decode_plain)
qed

lemma unquote_from_plain:
  "\<forall>c \<in> set run. c < 128 \<Longrightarrow> 37 \<notin> set run \<Longrightarrow> 37 \<notin> set s \<Longrightarrow>
   unquote_from run s = run @ s"
proof (induction s arbitrary: run)
  case Nil
  then show ?case by (simp add: unquote_run_spec spec_decode_run_plain)
next
  case (Cons c s)
  show ?case
  proof (cases "c < 128")
    case True
    with Cons.prems have "\<forall>c \<in> set (run @ [c]). c < 128" "37 \<notin> set (run @ [c])" "37 \<notin> set s"
      by auto
    from Cons.IH [OF this] True show ?thesis by simp
  next
    case False
    have "\<forall>c \<in> set ([] :: str). c < 128" "37 \<notin> set ([] :: str)" by simp_all
    moreover from Cons.prems have "37 \<notin> set s" by simp
    ultimately have "unquote_from [] s = s" using Cons.IH [of "[]"] by simp
    with False Cons.prems show ?thesis
      by (simp add: unquote_run_spec spec_decode_run_plain)
  qed
qed

lemma unquote_plus_spec: "unquote_plus s = spec_form_decode s"
proof -
  define s' where "s' = map (\<lambda>c. if c = 43 then 32 else c) s"
  have "unquote s' = unquote_from [] s'"
  proof (cases "37 \<in> set s'")
    case True
    then show ?thesis by (simp add: unquote_def)
  next
    case False
    then have "unquote_from [] s' = [] @ s'" by (intro unquote_from_plain) simp_all
    with False show ?thesis by (simp add: unquote_def)
  qed
  also have "\<dots> = spec_form_decode_from [] s"
    unfolding s'_def by (rule unquote_from_spec) simp
  finally show ?thesis by (simp add: unquote_plus_def s'_def spec_form_decode_def)
qed

lemma spec_form_decode_from_ascii:
  "\<forall>c \<in> set s. c < 128 \<Longrightarrow>
   spec_form_decode_from run s
     = decode_replace (spec_percent_decode (run @ map (\<lambda>c. if c = 43 then 32 else c) s))"
  by (induction s arbitrary: run) (simp_all add: spec_decode_run_def)

lemma spec_form_decode_ascii:
  "\<forall>c \<in> set s. c < 128 \<Longrightarrow>
   spec_form_decode s = decode_replace (spec_percent_decode (map (\<lambda>c. if c = 43 then 32 else c) s))"
  using spec_form_decode_from_ascii [of s "[]"] by (simp add: spec_form_decode_def)

lemma decode_replace_bad_start:
  assumes "encode t = Inr bs"
    and "(128 \<le> unat b \<and> unat b < 194) \<or> 245 \<le> unat b"
  shows "decode_replace (bs @ b # rest) = t @ 0xFFFD # decode_replace rest"
proof -
  from assms(2) have "utf8_step b rest = Invalid 1"
    by (auto simp: utf8_step_def)
  then have "utf8_scan (b # rest) = None # utf8_scan rest" by simp
  with utf8_scan_encode [OF assms(1), of "b # rest"] show ?thesis
    by (simp add: decode_replace_def comp_def)
qed

lemmas spec_eval_defs =
  spec_form_decode_def spec_decode_run_def spec_is_hex_def spec_hex_value_def

text \<open>
  C5, as the code has it. \<open>parse_qs\<close> splits the query at every \<open>&\<close> and at
  nothing else. A field \<open>name=value\<close> with a non-empty value gives the pair of the
  form-decoded name and the form-decoded value, in the sense of the specification:
  every \<open>+\<close> is a space, every \<open>%\<close> with two hexadecimal digits of either case is
  the byte they denote, and the bytes are decoded as UTF-8. Bytes that encode a text
  decode to that text; bytes that encode no text are not refused, their decoding holds
  U+FFFD, and a byte that cannot begin a sequence becomes one U+FFFD with the decoding
  going on after it. A field with no \<open>=\<close> or an empty value gives nothing, and the
  values of a key are those of its pairs, in the order of the query: \<open>a=1&a=2\<close> gives
  \<open>["1", "2"]\<close> for \<open>a\<close>.
\<close>

theorem parse_qs_form_decoding:
  "parse_qsl (q1 @ 38 # q2) = parse_qsl q1 @ parse_qsl q2
   \<and> (38 \<notin> set name \<and> 61 \<notin> set name \<and> 38 \<notin> set val \<and> val \<noteq> []
        \<longrightarrow> parse_qsl (name @ 61 # val) = [(spec_form_decode name, spec_form_decode val)])
   \<and> (38 \<notin> set field \<and> (61 \<notin> set field \<or> (\<exists>name. field = name @ [61] \<and> 61 \<notin> set name))
        \<longrightarrow> parse_qsl field = [])
   \<and> map_of (parse_qs qs) k
       = (case map snd (filter (\<lambda>p. fst p = k) (parse_qsl qs)) of
            [] \<Rightarrow> None
          | v # vs \<Rightarrow> Some (v # vs))
   \<and> ((\<forall>c \<in> set s. c < 128)
        \<longrightarrow> spec_form_decode s
            = decode_replace (spec_percent_decode (map (\<lambda>c. if c = 43 then 32 else c) s)))
   \<and> (encode t = Inr bs \<longrightarrow> decode_replace bs = t)
   \<and> ((\<nexists>t. encode t = Inr bs') \<longrightarrow> 0xFFFD \<in> set (decode_replace bs'))
   \<and> (encode t = Inr bs \<and> ((128 \<le> unat b \<and> unat b < 194) \<or> 245 \<le> unat b)
        \<longrightarrow> decode_replace (bs @ b # rest) = t @ 0xFFFD # decode_replace rest)
   \<and> map_of (parse_qs (str_of ''a=1&a=2'')) (str_of ''a'') = Some [str_of ''1'', str_of ''2'']"
proof -
  have e1: "map_of (parse_qs (str_of ''a=1&a=2'')) (str_of ''a'') = Some [str_of ''1'', str_of ''2'']"
    by (simp add: eval_defs)
  have f: "38 \<notin> set name \<and> 61 \<notin> set name \<and> 38 \<notin> set val \<and> val \<noteq> []
        \<longrightarrow> parse_qsl (name @ 61 # val) = [(spec_form_decode name, spec_form_decode val)]"
    using parse_qsl_field [of name val] by (simp add: unquote_plus_spec)
  show ?thesis
    using parse_qsl_append [of q1 q2] f parse_qsl_blank [of field]
      parse_qs_map_of [of qs k] spec_form_decode_ascii [of s] decode_replace_valid [of t bs]
      decode_replace_malformed [of bs'] decode_replace_bad_start [of t bs b rest] e1
    by blast
qed

theorem parse_qs_form_decoding_witness:
  "38 \<notin> set (str_of ''n'') \<and> 61 \<notin> set (str_of ''n'')
   \<and> 38 \<notin> set (str_of ''%e2%82%ac+%F0%9F%98%80'') \<and> str_of ''%e2%82%ac+%F0%9F%98%80'' \<noteq> []
   \<and> parse_qsl (str_of ''n'' @ 61 # str_of ''%e2%82%ac+%F0%9F%98%80'')
       = [(str_of ''n'', [0x20AC, 32, 0x1F600])]
   \<and> 38 \<notin> set (str_of ''b='') \<and> str_of ''b='' = str_of ''b'' @ [61] \<and> 61 \<notin> set (str_of ''b'')
   \<and> parse_qsl (str_of ''b='') = []
   \<and> parse_qsl (str_of ''a=%31'' @ 38 # str_of ''a=2'')
       = parse_qsl (str_of ''a=%31'') @ parse_qsl (str_of ''a=2'')
   \<and> map_of (parse_qs (str_of ''a=%31&b=&a=2'')) (str_of ''a'') = Some [str_of ''1'', str_of ''2'']
   \<and> map_of (parse_qs (str_of ''a=%31&b=&a=2'')) (str_of ''b'') = None
   \<and> list_all (\<lambda>c. c < 128) (str_of ''x+%d0%9F'')
   \<and> spec_form_decode (str_of ''x+%d0%9F'') = [120, 32, 1055]
   \<and> encode [0x20AC] = Inr [0xE2, 0x82, 0xAC]
   \<and> decode_replace [0xE2, 0x82, 0xAC] = [0x20AC]
   \<and> (\<nexists>t. encode t = Inr [0xE2, 0x82])
   \<and> 0xFFFD \<in> set (decode_replace [0xE2, 0x82])
   \<and> unat (0xFF :: byte) = 255
   \<and> decode_replace ([0xE2, 0x82, 0xAC] @ 0xFF # [0x41]) = [0x20AC] @ 0xFFFD # [0x41]"
proof -
  have h1: "38 \<notin> set (str_of ''n'') \<and> 61 \<notin> set (str_of ''n'')
      \<and> 38 \<notin> set (str_of ''%e2%82%ac+%F0%9F%98%80'') \<and> str_of ''%e2%82%ac+%F0%9F%98%80'' \<noteq> []"
    by (simp add: str_of_def)
  have v1: "spec_form_decode (str_of ''n'') = str_of ''n''"
    by (simp add: spec_eval_defs eval_defs)
  have v2: "spec_form_decode (str_of ''%e2%82%ac+%F0%9F%98%80'') = [0x20AC, 32, 0x1F600]"
    by (simp add: spec_eval_defs eval_defs)
  have h2: "38 \<notin> set (str_of ''b='') \<and> str_of ''b='' = str_of ''b'' @ [61] \<and> 61 \<notin> set (str_of ''b'')"
    by (simp add: str_of_def)
  have l: "parse_qsl (str_of ''a=%31&b=&a=2'')
      = [(str_of ''a'', str_of ''1''), (str_of ''a'', str_of ''2'')]"
    by (simp add: eval_defs)
  have m1: "map_of (parse_qs (str_of ''a=%31&b=&a=2'')) (str_of ''a'') = Some [str_of ''1'', str_of ''2'']"
    using parse_qs_form_decoding [of _ _ _ _ _ "str_of ''a=%31&b=&a=2''" "str_of ''a''"]
    unfolding l by (simp add: str_of_def)
  have m2: "map_of (parse_qs (str_of ''a=%31&b=&a=2'')) (str_of ''b'') = None"
    using parse_qs_form_decoding [of _ _ _ _ _ "str_of ''a=%31&b=&a=2''" "str_of ''b''"]
    unfolding l by (simp add: str_of_def)
  have h3: "\<forall>c \<in> set (str_of ''x+%d0%9F''). c < 128"
    by (simp add: str_of_def)
  have v3: "decode_replace (spec_percent_decode (map (\<lambda>c. if c = 43 then 32 else c) (str_of ''x+%d0%9F'')))
      = [120, 32, 1055]"
    by (simp add: spec_eval_defs eval_defs)
  have h4: "encode [0x20AC] = Inr [0xE2, 0x82, 0xAC]"
    by (simp add: eval_defs)
  have d: "decode [0xE2, 0x82] = Inl UnicodeDecodeError"
    by (simp add: eval_defs)
  have h5: "\<nexists>t. encode t = Inr [0xE2, 0x82]"
  proof
    assume "\<exists>t. encode t = Inr [0xE2, 0x82]"
    then obtain t where "encode t = Inr [0xE2, 0x82]" ..
    then have "decode [0xE2, 0x82] = Inr t" by (simp add: decode_iff_encode)
    with d show False by simp
  qed
  have h6: "unat (0xFF :: byte) = 255" by simp
  have h7: "38 \<notin> set (str_of ''b'')" by (simp add: str_of_def)
  have v4: "decode_replace [0x41] = [0x41]" by (simp add: eval_defs)
  from h1 v1 v2 h2 m1 m2 h3 v3 h4 h5 h6 h7 v4
    parse_qs_form_decoding [of "str_of ''a=%31''" "str_of ''a=2''" "str_of ''n''"
      "str_of ''%e2%82%ac+%F0%9F%98%80''" "str_of ''b=''" _ _ "str_of ''x+%d0%9F''"
      "[0x20AC]" "[0xE2, 0x82, 0xAC]" "[0xE2, 0x82]" "0xFF" "[0x41]"]
  show ?thesis unfolding list_all_iff
    by (simp del: append.simps)
qed

text \<open>
  C5 as stated fails. The query \<open>a=1;a=2\<close>: the semicolon does not separate pairs. The key \<open>a\<close> has
  the one value \<open>1;a=2\<close>, not the two values \<open>1\<close> and \<open>2\<close>.
\<close>

theorem parse_qs_semicolon_counterexample:
  "parse_qs (str_of ''a=1;a=2'') = [(str_of ''a'', [str_of ''1;a=2''])]
   \<and> map_of (parse_qs (str_of ''a=1;a=2'')) (str_of ''a'') \<noteq> Some [str_of ''1'', str_of ''2'']"
  by (simp add: eval_defs)

section \<open>Properties of the request parser\<close>

lemma split_ws_from_tokens:
  "t \<in> set (split_ws_from tok s) \<Longrightarrow> \<forall>c \<in> set tok. \<not> isspace c \<Longrightarrow> \<forall>c \<in> set t. \<not> isspace c"
proof (induction s arbitrary: tok)
  case Nil
  then show ?case by (auto split: if_splits)
next
  case (Cons a s)
  show ?case
  proof (cases "isspace a")
    case True
    with Cons.prems have "t = tok \<or> t \<in> set (split_ws_from [] s)"
      by (auto split: if_splits)
    then show ?thesis
    proof
      assume "t = tok"
      with Cons.prems(2) show ?thesis by simp
    next
      assume "t \<in> set (split_ws_from [] s)"
      then show ?thesis using Cons.IH [of "[]"] by simp
    qed
  next
    case False
    with Cons.prems have "t \<in> set (split_ws_from (tok @ [a]) s)" by simp
    moreover from False Cons.prems(2) have "\<forall>c \<in> set (tok @ [a]). \<not> isspace c" by simp
    ultimately show ?thesis using Cons.IH [of "tok @ [a]"] by blast
  qed
qed

lemma split_ws_tokens: "t \<in> set (split_ws s) \<Longrightarrow> \<forall>c \<in> set t. \<not> isspace c"
  using split_ws_from_tokens [of t "[]" s] by (simp add: split_ws_def)



lemma not_space_keeps:
  assumes "\<forall>c \<in> set s. \<not> isspace c"
  shows "filter (\<lambda>c. c \<noteq> 9 \<and> c \<noteq> 13 \<and> c \<noteq> 10) s = s"
proof -
  have "isspace 9" "isspace 13" "isspace 10" by (simp_all add: isspace_def)
  with assms have "\<forall>c \<in> set s. c \<noteq> 9 \<and> c \<noteq> 13 \<and> c \<noteq> 10" by metis
  then show ?thesis by (simp only: filter_id_conv)
qed

lemma only_ValueError_Let:
  "(\<And>x. \<forall>e. f x = Inl e \<longrightarrow> e = ValueError) \<Longrightarrow> \<forall>e. Let a f = Inl e \<longrightarrow> e = ValueError"
  by simp

lemma only_ValueError_if:
  "\<forall>e. a = Inl e \<longrightarrow> e = ValueError \<Longrightarrow> \<forall>e. b = Inl e \<longrightarrow> e = ValueError \<Longrightarrow>
   \<forall>e. (if c then a else b) = Inl e \<longrightarrow> e = ValueError"
  by simp

lemma urlsplit_only_ValueError: "urlsplit tables url = Inl e \<Longrightarrow> e = ValueError"
proof -
  have "\<forall>e. urlsplit tables url = Inl e \<longrightarrow> e = ValueError"
    unfolding urlsplit_def
    by (intro only_ValueError_Let only_ValueError_if) simp_all
  then show "urlsplit tables url = Inl e \<Longrightarrow> e = ValueError" by blast
qed

lemma urlparse_only_ValueError: "urlparse tables url = Inl e \<Longrightarrow> e = ValueError"
  by (auto simp: urlparse_def dest: urlsplit_only_ValueError split: sum.splits if_splits)

lemma urlparse_returns: "urlsplit tables url = Inr r \<Longrightarrow> \<exists>r'. urlparse tables url = Inr r'"
  by (simp add: urlparse_def)

lemma drop_no_slashes:
  assumes "\<nexists>ps ss. s = ps @ [47, 47] @ ss"
  shows "take 2 (drop n s) \<noteq> [47, 47]"
proof
  assume "take 2 (drop n s) = [47, 47]"
  then have "drop n s = [47, 47] @ drop 2 (drop n s)"
    using append_take_drop_id [of 2 "drop n s"] by simp
  then have "s = take n s @ [47, 47] @ drop 2 (drop n s)"
    using append_take_drop_id [of n s] by simp
  with assms show False by blast
qed

lemma urlsplit_no_authority:
  assumes "\<forall>c \<in> set url. \<not> isspace c" and "\<nexists>ps ss. url = ps @ [47, 47] @ ss"
  shows "\<exists>r. urlsplit tables url = Inr r"
proof -
  define url1 where "url1 = dropWhile (\<lambda>c. c \<le> 0x20) url"
  have "\<forall>c \<in> set url1. \<not> isspace c"
    using assms(1) set_dropWhileD unfolding url1_def by fast
  then have f: "filter (\<lambda>c. c \<noteq> 9 \<and> c \<noteq> 13 \<and> c \<noteq> 10) url1 = url1"
    by (rule not_space_keeps)
  have "url = takeWhile (\<lambda>c. c \<le> 0x20) url @ url1"
    by (simp add: url1_def)
  with assms(2) have n1: "\<nexists>ps ss. url1 = ps @ [47, 47] @ ss"
    by (metis append.assoc)
  have a: "take 2 (drop n url1) \<noteq> [47, 47]" for n
    using n1 by (rule drop_no_slashes)
  have b: "take 2 url1 \<noteq> [47, 47]"
    using a [of 0] by simp
  show ?thesis
    using a b
    by (simp add: urlsplit_def Let_def url1_def [symmetric] f checknetloc_def)
qed


text \<open>
  C6, as the code has it. The parser can raise: \<open>urlparse\<close> raises \<open>ValueError\<close>
  on a request target whose authority part it rejects, and the parser does not catch
  it. That is the only exception. A request line of fewer than two tokens gives the
  empty result, and a request target with no two slashes in a row has no authority
  part, so the parser returns.
\<close>

theorem parse_http_request_raises_only_ValueError:
  "(parse_http_request tables request = Inl e \<longrightarrow> e = ValueError)
   \<and> (split_crlf request = request_line # rest \<and> length (split_ws request_line) < 2
        \<longrightarrow> parse_http_request tables request = Inr ([], [], []))
   \<and> (split_crlf request = request_line # rest \<and> split_ws request_line = method # target # others
        \<and> (\<nexists>ps ss. target = ps @ [47, 47] @ ss)
        \<longrightarrow> (\<exists>path query. parse_http_request tables request = Inr (method, path, query)))"
proof (intro conjI impI)
  assume "parse_http_request tables request = Inl e"
  then show "e = ValueError"
    by (auto simp: parse_http_request_def dest: urlparse_only_ValueError
        split: list.splits sum.splits)
next
  assume "split_crlf request = request_line # rest \<and> length (split_ws request_line) < 2"
  then show "parse_http_request tables request = Inr ([], [], [])"
    using parse_http_request_short by blast
next
  assume a: "split_crlf request = request_line # rest \<and> split_ws request_line = method # target # others
        \<and> (\<nexists>ps ss. target = ps @ [47, 47] @ ss)"
  then have "target \<in> set (split_ws request_line)" by simp
  then have "\<forall>c \<in> set target. \<not> isspace c" by (rule split_ws_tokens)
  with a obtain r where "urlsplit tables target = Inr r"
    using urlsplit_no_authority by blast
  then obtain r' where "urlparse tables target = Inr r'"
    using urlparse_returns by blast
  with a show "\<exists>path query. parse_http_request tables request = Inr (method, path, query)"
    by (simp add: parse_http_request_def)
qed

theorem parse_http_request_raises_only_ValueError_witness:
  "parse_http_request plain_lib (str_of ''GET //[ HTTP/1.1'') = Inl ValueError
   \<and> split_crlf (str_of ''GET'') = str_of ''GET'' # []
   \<and> length (split_ws (str_of ''GET'')) < 2
   \<and> parse_http_request plain_lib (str_of ''GET'') = Inr ([], [], [])
   \<and> split_crlf (str_of ''GET /a HTTP/1.1'') = str_of ''GET /a HTTP/1.1'' # []
   \<and> split_ws (str_of ''GET /a HTTP/1.1'') = str_of ''GET'' # str_of ''/a'' # [str_of ''HTTP/1.1'']
   \<and> (\<nexists>ps ss. str_of ''/a'' = ps @ [47, 47] @ ss)
   \<and> (\<exists>path query. parse_http_request plain_lib (str_of ''GET /a HTTP/1.1'')
                       = Inr (str_of ''GET'', path, query))"
proof -
  have h0: "parse_http_request plain_lib (str_of ''GET //[ HTTP/1.1'') = Inl ValueError"
    by (simp add: eval_defs)
  have h1: "split_crlf (str_of ''GET'') = str_of ''GET'' # []"
    by (simp add: eval_defs)
  have h2: "length (split_ws (str_of ''GET'')) < 2"
    by (simp add: eval_defs)
  have h3: "split_crlf (str_of ''GET /a HTTP/1.1'') = str_of ''GET /a HTTP/1.1'' # []"
    by (simp add: eval_defs)
  have h4: "split_ws (str_of ''GET /a HTTP/1.1'') = str_of ''GET'' # str_of ''/a'' # [str_of ''HTTP/1.1'']"
    by (simp add: eval_defs)
  have h5: "\<nexists>ps ss. str_of ''/a'' = ps @ [47, 47] @ ss"
  proof
    assume "\<exists>ps ss. str_of ''/a'' = ps @ [47, 47] @ ss"
    then obtain ps ss where e: "[47, 97 :: nat] = ps @ [47, 47] @ ss"
      by (auto simp: str_of_def)
    then have "length [47, 97 :: nat] = length (ps @ [47, 47] @ ss)"
      by (rule arg_cong)
    then have "ps = []" by simp
    with e show False by simp
  qed
  from h0 h1 h2 h3 h4 h5
    parse_http_request_raises_only_ValueError [of plain_lib "str_of ''GET''" ValueError
      "str_of ''GET''" "[]"]
    parse_http_request_raises_only_ValueError [of plain_lib "str_of ''GET /a HTTP/1.1''" ValueError
      "str_of ''GET /a HTTP/1.1''" "[]" "str_of ''GET''" "str_of ''/a''" "[str_of ''HTTP/1.1'']"]
  show ?thesis by blast
qed

text \<open>
  C6 as stated fails. The request line \<open>GET //[ HTTP/1.1\<close>: the target has an authority part with an
  opening bracket and no closing one, \<open>urlparse\<close> raises \<open>ValueError\<close>, and so does
  the parser.
\<close>

theorem parse_http_request_raises_counterexample:
  "parse_http_request plain_lib (str_of ''GET //[ HTTP/1.1'') = Inl ValueError"
  by (simp add: eval_defs)




end
